theory Spec2Isabelle
  imports Main
begin

section \<open>The Mancala game state of \<^verbatim>\<open>src/game-state.js\<close> (class GameState)\<close>

text \<open>
  Stone counts, pit positions and player numbers are JavaScript numbers holding integers;
  they are modelled as \<^typ>\<open>int\<close>. A row is a one-dimensional mathjs matrix; its
  data array is modelled as an \<^typ>\<open>int list\<close>.
\<close>

datatype error = IndexError | RangeError

record mancalas_t =
  player1 :: int
  player2 :: int

record GameState =
  dimensions :: int
  pocketsPerSide :: int
  currentPlayer :: int
  player1Board :: "int list"
  player2Board :: "int list"
  mancalas :: mancalas_t

text \<open>An entry of the sequence built by \<^verbatim>\<open>simulateMove\<close>:
  \<^verbatim>\<open>{player, position, isMancala}\<close>.\<close>

record touched =
  player :: int
  position :: int
  isMancala :: bool

subsection \<open>The mathjs matrix operations the class relies on\<close>

text \<open>
  \<^verbatim>\<open>board.get([i])\<close> (mathjs 14 and later) measures the data array of the matrix,
  validates the index against that size and throws an IndexError when the index is
  negative or not below it.
\<close>

definition matrix_get :: "int list \<Rightarrow> int \<Rightarrow> error + int" where
  "matrix_get m i =
     (if i < 0 \<or> int (length m) \<le> i then Inl IndexError else Inr (m ! nat i))"

text \<open>
  \<^verbatim>\<open>board._data[i] = v\<close> is a plain JavaScript array write, and \<^verbatim>\<open>get\<close> reads the
  array as it then is. Inside the array the write replaces the cell. At the index just
  past the end it appends the cell. Further out it lengthens the array as well and leaves
  holes between the old end and the new cell; a hole reads \<^verbatim>\<open>undefined\<close>, which is
  not a stone count, so such a row is not one an \<^typ>\<open>int list\<close> can hold: the holes are
  shown as 0 here. A negative index stores the value as a property of the array object;
  the cells and the length of the array are unchanged.
\<close>

definition data_set :: "int list \<Rightarrow> int \<Rightarrow> int \<Rightarrow> int list" where
  "data_set m i v =
     (if i < 0 then m
      else if i < int (length m) then m[nat i := v]
      else m @ replicate (nat i - length m) 0 @ [v])"

text \<open>
  \<^verbatim>\<open>Array(n).fill(v)\<close> throws a RangeError unless \<open>n\<close> is an integer with
  \<open>0 \<le> n < 2^32\<close>.
\<close>

definition Array_fill :: "int \<Rightarrow> int \<Rightarrow> error + int list" where
  "Array_fill n v =
     (if n < 0 \<or> 4294967296 \<le> n then Inl RangeError else Inr (replicate (nat n) v))"

subsection \<open>Construction\<close>

text \<open>\<^verbatim>\<open>initialize()\<close>: both rows are filled with the constant 4, both mancalas are 0.\<close>

definition initialize :: "GameState \<Rightarrow> error + GameState" where
  "initialize s =
     (let initialStones = 4 in
      case Array_fill (pocketsPerSide s) initialStones of
        Inl e \<Rightarrow> Inl e
      | Inr b1 \<Rightarrow>
          (case Array_fill (pocketsPerSide s) initialStones of
             Inl e \<Rightarrow> Inl e
           | Inr b2 \<Rightarrow>
               Inr (s\<lparr>player1Board := b1, player2Board := b2,
                       mancalas := \<lparr>player1 = 0, player2 = 0\<rparr>\<rparr>)))"

text \<open>\<^verbatim>\<open>constructor(dimensions, pocketsPerSide)\<close>.\<close>

definition GameState_new :: "int \<Rightarrow> int \<Rightarrow> error + GameState" where
  "GameState_new dims pockets =
     initialize \<lparr>dimensions = dims, pocketsPerSide = pockets, currentPlayer = 1,
                 player1Board = [], player2Board = [],
                 mancalas = \<lparr>player1 = 0, player2 = 0\<rparr>\<rparr>"

subsection \<open>Pit access\<close>

definition getStonesAt :: "GameState \<Rightarrow> int \<Rightarrow> int \<Rightarrow> error + int" where
  "getStonesAt s p pos =
     (let board = (if p = 1 then player1Board s else player2Board s)
      in matrix_get board pos)"

definition setStonesAt :: "GameState \<Rightarrow> int \<Rightarrow> int \<Rightarrow> int \<Rightarrow> GameState" where
  "setStonesAt s p pos count =
     (if p = 1 then s\<lparr>player1Board := data_set (player1Board s) pos count\<rparr>
      else s\<lparr>player2Board := data_set (player2Board s) pos count\<rparr>)"

text \<open>
  \<^verbatim>\<open>this.mancalas[`player${p}`] += n\<close>. For \<open>p\<close> other than 1 and 2 the JavaScript
  creates a new key on the object and leaves \<^verbatim>\<open>player1\<close> and \<^verbatim>\<open>player2\<close> as they are.
\<close>

definition mancala_add :: "GameState \<Rightarrow> int \<Rightarrow> int \<Rightarrow> GameState" where
  "mancala_add s p n =
     (if p = 1 then s\<lparr>mancalas := (mancalas s)\<lparr>player1 := player1 (mancalas s) + n\<rparr>\<rparr>
      else if p = 2 then s\<lparr>mancalas := (mancalas s)\<lparr>player2 := player2 (mancalas s) + n\<rparr>\<rparr>
      else s)"

text \<open>\<^verbatim>\<open>this.mancalas[`player${p}`]\<close> read for a player number 1 or 2.\<close>

definition mancala_of :: "GameState \<Rightarrow> int \<Rightarrow> int" where
  "mancala_of s p = (if p = 1 then player1 (mancalas s) else player2 (mancalas s))"

text \<open>The expression \<^verbatim>\<open>p === 1 ? 2 : 1\<close>.\<close>

definition other_player :: "int \<Rightarrow> int" where
  "other_player p = (if p = 1 then 2 else 1)"

subsection \<open>Validation\<close>

definition isValidMove :: "GameState \<Rightarrow> int \<Rightarrow> error + bool" where
  "isValidMove s pos =
     (if pos < 0 \<or> pocketsPerSide s \<le> pos then Inr False
      else case getStonesAt s (currentPlayer s) pos of
             Inl e \<Rightarrow> Inl e
           | Inr stones \<Rightarrow> Inr (0 < stones))"

subsection \<open>The mutating move\<close>

text \<open>
  Lines 103--114 of the loop body: what happens when the cursor, already advanced, has
  left the row. The result is the updated state, the remaining stones, the cursor
  player, the cursor position, the flag \<^verbatim>\<open>lastStoneInMancala\<close>, and whether the
  \<^verbatim>\<open>break\<close> was taken.
\<close>

definition end_of_board ::
  "GameState \<Rightarrow> int \<Rightarrow> int \<Rightarrow> int \<Rightarrow> bool \<Rightarrow> GameState \<times> int \<times> int \<times> int \<times> bool \<times> bool" where
  "end_of_board s stones curPlayer currentPos lastStoneInMancala =
     (if pocketsPerSide s \<le> currentPos then
        (if curPlayer = currentPlayer s then
           (let s1 = mancala_add s curPlayer 1;
                stones1 = stones - 1;
                last1 = (stones1 = 0)
            in if last1 then (s1, stones1, curPlayer, currentPos, last1, True)
               else (s1, stones1, other_player curPlayer, 0, last1, False))
         else (s, stones, other_player curPlayer, 0, lastStoneInMancala, False))
      else (s, stones, curPlayer, currentPos, lastStoneInMancala, False))"

text \<open>
  Lines 116--135 of the loop body: one stone goes into the pit under the cursor, the
  remaining count drops by one, and on the last stone the capture is examined.
\<close>

definition place_stone :: "GameState \<Rightarrow> int \<Rightarrow> int \<Rightarrow> int \<Rightarrow> error + (GameState \<times> int)" where
  "place_stone s stones curPlayer currentPos =
     (case getStonesAt s curPlayer currentPos of
        Inl e \<Rightarrow> Inl e
      | Inr n \<Rightarrow>
          (let s1 = setStonesAt s curPlayer currentPos (n + 1);
               stones1 = stones - 1
           in if stones1 = 0 \<and> curPlayer = currentPlayer s1 then
                (case getStonesAt s1 curPlayer currentPos of
                   Inl e \<Rightarrow> Inl e
                 | Inr landed \<Rightarrow>
                     if landed = 1 then
                       (let oppositePlayer = other_player curPlayer in
                        case getStonesAt s1 oppositePlayer
                               (pocketsPerSide s1 - 1 - currentPos) of
                          Inl e \<Rightarrow> Inl e
                        | Inr oppositeStones \<Rightarrow>
                            if 0 < oppositeStones then
                              (let capturedStones = oppositeStones + 1;
                                   s2 = setStonesAt s1 oppositePlayer
                                          (pocketsPerSide s1 - 1 - currentPos) 0;
                                   s3 = setStonesAt s2 curPlayer currentPos 0
                               in Inr (mancala_add s3 curPlayer capturedStones, stones1))
                            else Inr (s1, stones1))
                     else Inr (s1, stones1))
              else Inr (s1, stones1)))"

text \<open>The \<^verbatim>\<open>while (stones > 0)\<close> loop of \<^verbatim>\<open>performMove\<close>.\<close>

function performMove_loop ::
  "GameState \<Rightarrow> int \<Rightarrow> int \<Rightarrow> int \<Rightarrow> bool \<Rightarrow> error + (GameState \<times> bool)" where
  "performMove_loop s stones curPlayer currentPos lastStoneInMancala =
     (if 0 < stones then
        (case end_of_board s stones curPlayer (currentPos + 1) lastStoneInMancala of
           (s1, stones1, curPlayer1, currentPos1, last1, brk) \<Rightarrow>
             if brk then Inr (s1, last1)
             else (case place_stone s1 stones1 curPlayer1 currentPos1 of
                     Inl e \<Rightarrow> Inl e
                   | Inr (s2, stones2) \<Rightarrow>
                       performMove_loop s2 stones2 curPlayer1 currentPos1 last1))
      else Inr (s, lastStoneInMancala))"
  by pat_completeness auto
termination
  by (relation "measure (\<lambda>(s, stones, cp, pos, l). nat stones)")
     (auto simp: end_of_board_def place_stone_def Let_def split: if_splits sum.splits)

declare performMove_loop.simps [simp del]

definition performMove :: "GameState \<Rightarrow> int \<Rightarrow> error + (GameState \<times> bool)" where
  "performMove s pos =
     (case isValidMove s pos of
        Inl e \<Rightarrow> Inl e
      | Inr valid \<Rightarrow>
          if \<not> valid then Inr (s, False)
          else (case getStonesAt s (currentPlayer s) pos of
                  Inl e \<Rightarrow> Inl e
                | Inr stones \<Rightarrow>
                    (let s1 = setStonesAt s (currentPlayer s) pos 0 in
                     case performMove_loop s1 stones (currentPlayer s1) pos False of
                       Inl e \<Rightarrow> Inl e
                     | Inr (s2, lastStoneInMancala) \<Rightarrow>
                         Inr (if \<not> lastStoneInMancala
                              then s2\<lparr>currentPlayer := other_player (currentPlayer s2)\<rparr>
                              else s2,
                              lastStoneInMancala))))"

subsection \<open>The preview\<close>

text \<open>
  The \<^verbatim>\<open>for (let i = 0; i < stones; i++)\<close> loop of \<^verbatim>\<open>simulateMove\<close>; the
  \<^verbatim>\<open>continue\<close> after a mancala entry leaves the cursor at position \<open>-1\<close> of the other row.
\<close>

function simulateMove_loop ::
  "GameState \<Rightarrow> int \<Rightarrow> int \<Rightarrow> int \<Rightarrow> int \<Rightarrow> touched list \<Rightarrow> touched list" where
  "simulateMove_loop s stones i curPlayer currentPos sequence =
     (if i < stones then
        (if pocketsPerSide s \<le> currentPos + 1 then
           (if curPlayer = currentPlayer s then
              simulateMove_loop s stones (i + 1) (other_player curPlayer) (- 1)
                (sequence @ [\<lparr>player = curPlayer, position = - 1, isMancala = True\<rparr>])
            else
              simulateMove_loop s stones (i + 1) (other_player curPlayer) 0
                (sequence @
                   [\<lparr>player = other_player curPlayer, position = 0, isMancala = False\<rparr>]))
         else
           simulateMove_loop s stones (i + 1) curPlayer (currentPos + 1)
             (sequence @
                [\<lparr>player = curPlayer, position = currentPos + 1, isMancala = False\<rparr>]))
      else sequence)"
  by pat_completeness auto
termination
  by (relation "measure (\<lambda>(s, stones, i, cp, pos, sq). nat (stones - i))") auto

declare simulateMove_loop.simps [simp del]

definition simulateMove :: "GameState \<Rightarrow> int \<Rightarrow> error + touched list" where
  "simulateMove s pos =
     (case isValidMove s pos of
        Inl e \<Rightarrow> Inl e
      | Inr valid \<Rightarrow>
          if \<not> valid then Inr []
          else (case getStonesAt s (currentPlayer s) pos of
                  Inl e \<Rightarrow> Inl e
                | Inr stones \<Rightarrow>
                    Inr (simulateMove_loop s stones 0 (currentPlayer s) pos [])))"

subsection \<open>Restart (class Game)\<close>

text \<open>
  \<^verbatim>\<open>restartGame()\<close> builds \<^verbatim>\<open>new GameState(2, 6)\<close>, overwrites every pit of both rows
  with the configured \<^verbatim>\<open>this.initialStones\<close>, zeroes both mancalas and sets the current
  player to 1.
\<close>

definition restartGame :: "int \<Rightarrow> error + GameState" where
  "restartGame initialStones =
     (case GameState_new 2 6 of
        Inl e \<Rightarrow> Inl e
      | Inr g \<Rightarrow>
          (let g1 = foldl (\<lambda>g p.
                      foldl (\<lambda>g pos. setStonesAt g p pos initialStones) g
                        [0 .. pocketsPerSide g - 1]) g [1, 2];
               g2 = g1\<lparr>mancalas := (mancalas g1)\<lparr>player1 := 0\<rparr>\<rparr>;
               g3 = g2\<lparr>mancalas := (mancalas g2)\<lparr>player2 := 0\<rparr>\<rparr>
           in Inr (g3\<lparr>currentPlayer := 1\<rparr>)))"

subsection \<open>The move with a record of what it writes\<close>

text \<open>
  The same loop as \<^const>\<open>performMove_loop\<close>, carrying two ghost variables that no branch
  reads: \<open>log\<close>, to which every cell receiving a sown stone is appended at the moment of
  the write (the mancala increment of line 106, the pit write of line 117), and
  \<open>iters\<close>, the number of loop iterations begun.
\<close>

function performMove_loop_traced ::
  "GameState \<Rightarrow> int \<Rightarrow> int \<Rightarrow> int \<Rightarrow> bool \<Rightarrow> touched list \<Rightarrow> nat \<Rightarrow>
     error + (GameState \<times> bool \<times> touched list \<times> nat)" where
  "performMove_loop_traced s stones curPlayer currentPos lastStoneInMancala log iters =
     (if 0 < stones then
        (case end_of_board s stones curPlayer (currentPos + 1) lastStoneInMancala of
           (s1, stones1, curPlayer1, currentPos1, last1, brk) \<Rightarrow>
             (let log1 = (if pocketsPerSide s \<le> currentPos + 1 \<and> curPlayer = currentPlayer s
                          then log @ [\<lparr>player = curPlayer, position = - 1, isMancala = True\<rparr>]
                          else log)
              in if brk then Inr (s1, last1, log1, Suc iters)
                 else (case place_stone s1 stones1 curPlayer1 currentPos1 of
                         Inl e \<Rightarrow> Inl e
                       | Inr (s2, stones2) \<Rightarrow>
                           performMove_loop_traced s2 stones2 curPlayer1 currentPos1 last1
                             (log1 @ [\<lparr>player = curPlayer1, position = currentPos1,
                                       isMancala = False\<rparr>])
                             (Suc iters))))
      else Inr (s, lastStoneInMancala, log, iters))"
  by pat_completeness auto
termination
  by (relation "measure (\<lambda>(s, stones, cp, pos, l, lg, it). nat stones)")
     (auto simp: end_of_board_def place_stone_def Let_def split: if_splits sum.splits)

declare performMove_loop_traced.simps [simp del]

definition performMove_traced ::
  "GameState \<Rightarrow> int \<Rightarrow> error + (GameState \<times> bool \<times> touched list \<times> nat)" where
  "performMove_traced s pos =
     (case isValidMove s pos of
        Inl e \<Rightarrow> Inl e
      | Inr valid \<Rightarrow>
          if \<not> valid then Inr (s, False, [], 0)
          else (case getStonesAt s (currentPlayer s) pos of
                  Inl e \<Rightarrow> Inl e
                | Inr stones \<Rightarrow>
                    (let s1 = setStonesAt s (currentPlayer s) pos 0 in
                     case performMove_loop_traced s1 stones (currentPlayer s1) pos False [] 0 of
                       Inl e \<Rightarrow> Inl e
                     | Inr (s2, lastStoneInMancala, log, iters) \<Rightarrow>
                         Inr (if \<not> lastStoneInMancala
                              then s2\<lparr>currentPlayer := other_player (currentPlayer s2)\<rparr>
                              else s2,
                              lastStoneInMancala, log, iters))))"

subsection \<open>Vocabulary of the properties\<close>

text \<open>A state as the constructor leaves it in shape: both rows have \<open>pocketsPerSide\<close>
  cells and the current player is 1 or 2.\<close>

definition well_formed :: "GameState \<Rightarrow> bool" where
  "well_formed s =
     (int (length (player1Board s)) = pocketsPerSide s \<and>
      int (length (player2Board s)) = pocketsPerSide s \<and>
      (currentPlayer s = 1 \<or> currentPlayer s = 2))"

text \<open>All stones on the board: both rows and both mancalas.\<close>

definition total_stones :: "GameState \<Rightarrow> int" where
  "total_stones s =
     sum_list (player1Board s) + sum_list (player2Board s) +
     player1 (mancalas s) + player2 (mancalas s)"

text \<open>The cells the preview loop visits in its next \<open>n\<close> iterations, from a cursor.\<close>

definition cells :: "GameState \<Rightarrow> int \<Rightarrow> int \<Rightarrow> int \<Rightarrow> touched list" where
  "cells s n cp pos = simulateMove_loop s n 0 cp pos []"

text \<open>The board \<^verbatim>\<open>new GameState(2, 6)\<close> starts from.\<close>

definition start6 :: GameState where
  "start6 = \<lparr>dimensions = 2, pocketsPerSide = 6, currentPlayer = 1,
              player1Board = [4, 4, 4, 4, 4, 4], player2Board = [4, 4, 4, 4, 4, 4],
              mancalas = \<lparr>player1 = 0, player2 = 0\<rparr>\<rparr>"

text \<open>A pit that exists, read directly.\<close>

definition pit :: "GameState \<Rightarrow> int \<Rightarrow> int \<Rightarrow> int" where
  "pit s p pos = (if p = 1 then player1Board s else player2Board s) ! nat pos"

text \<open>One stone more in a cell: a mancala, or a pit.\<close>

definition deposit :: "GameState \<Rightarrow> touched \<Rightarrow> GameState" where
  "deposit s c =
     (if isMancala c then mancala_add s (player c) 1
      else setStonesAt s (player c) (position c) (pit s (player c) (position c) + 1))"

text \<open>The board after one stone has been dropped into each cell of a sequence, in order,
  and nothing else has happened.\<close>

definition sow :: "GameState \<Rightarrow> touched list \<Rightarrow> GameState" where
  "sow s cs = foldl deposit s cs"

text \<open>The test of lines 122--128, on the board \<open>b\<close> as sown and the cell \<open>c\<close> of the last
  stone: a pit of the player to move, holding exactly 1, opposite a pit that is not empty.\<close>

definition capture_applies :: "GameState \<Rightarrow> touched \<Rightarrow> bool" where
  "capture_applies b c =
     (\<not> isMancala c \<and> player c = currentPlayer b \<and> pit b (player c) (position c) = 1 \<and>
      0 < pit b (other_player (player c)) (pocketsPerSide b - 1 - position c))"

text \<open>The transfer of lines 129--132: the opposite pit and the landing pit are emptied and
  the mover's mancala gains the opposite pit's stones and the landing stone.\<close>

definition capture :: "GameState \<Rightarrow> touched \<Rightarrow> GameState" where
  "capture b c =
     (let opp = other_player (player c);
          mirror = pocketsPerSide b - 1 - position c
      in mancala_add (setStonesAt (setStonesAt b opp mirror 0) (player c) (position c) 0)
           (player c) (pit b opp mirror + 1))"

text \<open>Sowing a sequence of cells, then the capture test on the last of them.\<close>

definition settle :: "GameState \<Rightarrow> touched list \<Rightarrow> GameState" where
  "settle s cs =
     (if cs = [] then s
      else (let b = sow s cs in if capture_applies b (last cs) then capture b (last cs) else b))"

text \<open>A cell a move of state \<open>s\<close> may sow into: the mover's mancala, or a pit of a row.\<close>

definition cell_ok :: "GameState \<Rightarrow> touched \<Rightarrow> bool" where
  "cell_ok s c =
     (if isMancala c then player c = currentPlayer s
      else 0 \<le> position c \<and> position c < pocketsPerSide s)"

text \<open>The last cell of a sequence is a mancala.\<close>

definition ends_in_mancala :: "touched list \<Rightarrow> bool" where
  "ends_in_mancala cs = (cs \<noteq> [] \<and> isMancala (last cs))"

text \<open>A series of calls of \<^verbatim>\<open>performMove\<close>, one for each position of a list.\<close>

fun play :: "GameState \<Rightarrow> int list \<Rightarrow> error + GameState" where
  "play s [] = Inr s"
| "play s (m # ms) = (case performMove s m of Inl e \<Rightarrow> Inl e | Inr (s', k) \<Rightarrow> play s' ms)"

text \<open>The turn marker after a move whose sown cells are \<open>cs\<close> (lines 139--141).\<close>

definition pass_turn :: "touched list \<Rightarrow> GameState \<Rightarrow> GameState" where
  "pass_turn cs s =
     (if ends_in_mancala cs then s else s\<lparr>currentPlayer := other_player (currentPlayer s)\<rparr>)"

text \<open>The state right after the chosen pit has been emptied (line 91), and the cells the
  preview lists for the stones that were in it.\<close>

definition picked_up :: "GameState \<Rightarrow> int \<Rightarrow> GameState" where
  "picked_up s pos = setStonesAt s (currentPlayer s) pos 0"

definition sown_cells :: "GameState \<Rightarrow> int \<Rightarrow> touched list" where
  "sown_cells s pos = cells s (pit s (currentPlayer s) pos) (currentPlayer s) pos"

text \<open>Two boards for player 1 to move pit 0, whose single stone lands in the empty pit 1:
  opposite pit 1 (pit 4 of player 2) there are 4 stones on the first board, none on the
  second.\<close>

definition full_mirror :: GameState where
  "full_mirror = start6\<lparr>player1Board := [1, 0, 4, 4, 4, 4]\<rparr>"

definition empty_mirror :: GameState where
  "empty_mirror =
     start6\<lparr>player1Board := [1, 0, 4, 4, 4, 4], player2Board := [4, 4, 4, 4, 0, 4]\<rparr>"

text \<open>A board on which player 1's pit 5 holds 13 stones: sowing it passes the mover's
  mancala, the whole of player 2's row and player 1's row up to the pit it started from.\<close>

definition long_lap :: GameState where
  "long_lap = start6\<lparr>player1Board := [4, 4, 4, 4, 4, 13]\<rparr>"

subsection \<open>The move with the states it passes through\<close>

text \<open>
  Lines 116--135 once more, returning as a third component the state right after the write
  of lines 117--118, before the capture is examined.
\<close>

definition place_stone_snap ::
  "GameState \<Rightarrow> int \<Rightarrow> int \<Rightarrow> int \<Rightarrow> error + (GameState \<times> int \<times> GameState)" where
  "place_stone_snap s stones curPlayer currentPos =
     (case getStonesAt s curPlayer currentPos of
        Inl e \<Rightarrow> Inl e
      | Inr n \<Rightarrow>
          (let s1 = setStonesAt s curPlayer currentPos (n + 1);
               stones1 = stones - 1
           in if stones1 = 0 \<and> curPlayer = currentPlayer s1 then
                (case getStonesAt s1 curPlayer currentPos of
                   Inl e \<Rightarrow> Inl e
                 | Inr landed \<Rightarrow>
                     if landed = 1 then
                       (let oppositePlayer = other_player curPlayer in
                        case getStonesAt s1 oppositePlayer
                               (pocketsPerSide s1 - 1 - currentPos) of
                          Inl e \<Rightarrow> Inl e
                        | Inr oppositeStones \<Rightarrow>
                            if 0 < oppositeStones then
                              (let capturedStones = oppositeStones + 1;
                                   s2 = setStonesAt s1 oppositePlayer
                                          (pocketsPerSide s1 - 1 - currentPos) 0;
                                   s3 = setStonesAt s2 curPlayer currentPos 0
                               in Inr (mancala_add s3 curPlayer capturedStones, stones1, s1))
                            else Inr (s1, stones1, s1))
                     else Inr (s1, stones1, s1))
              else Inr (s1, stones1, s1)))"

text \<open>
  The loop of \<^verbatim>\<open>performMove\<close> with one ghost variable that no branch reads: \<open>snaps\<close>,
  to which the state itself is appended right after every write that sows a stone (the
  mancala increment of line 106, the pit write of lines 117--118).
\<close>

function performMove_loop_snap ::
  "GameState \<Rightarrow> int \<Rightarrow> int \<Rightarrow> int \<Rightarrow> bool \<Rightarrow> GameState list \<Rightarrow>
     error + (GameState \<times> bool \<times> GameState list)" where
  "performMove_loop_snap s stones curPlayer currentPos lastStoneInMancala snaps =
     (if 0 < stones then
        (case end_of_board s stones curPlayer (currentPos + 1) lastStoneInMancala of
           (s1, stones1, curPlayer1, currentPos1, last1, brk) \<Rightarrow>
             (let snaps1 = (if pocketsPerSide s \<le> currentPos + 1 \<and> curPlayer = currentPlayer s
                            then snaps @ [s1] else snaps)
              in if brk then Inr (s1, last1, snaps1)
                 else (case place_stone_snap s1 stones1 curPlayer1 currentPos1 of
                         Inl e \<Rightarrow> Inl e
                       | Inr (s2, stones2, written) \<Rightarrow>
                           performMove_loop_snap s2 stones2 curPlayer1 currentPos1 last1
                             (snaps1 @ [written]))))
      else Inr (s, lastStoneInMancala, snaps))"
  by pat_completeness auto
termination
  by (relation "measure (\<lambda>(s, stones, cp, pos, l, sn). nat stones)")
     (auto simp: end_of_board_def place_stone_snap_def Let_def split: if_splits sum.splits)

declare performMove_loop_snap.simps [simp del]

text \<open>\<^verbatim>\<open>performMove\<close> with the states of its sowing: the list starts with the state
  right after the chosen pit has been emptied (line 91).\<close>

definition performMove_snap ::
  "GameState \<Rightarrow> int \<Rightarrow> error + (GameState \<times> bool \<times> GameState list)" where
  "performMove_snap s pos =
     (case isValidMove s pos of
        Inl e \<Rightarrow> Inl e
      | Inr valid \<Rightarrow>
          if \<not> valid then Inr (s, False, [s])
          else (case getStonesAt s (currentPlayer s) pos of
                  Inl e \<Rightarrow> Inl e
                | Inr stones \<Rightarrow>
                    (let s1 = setStonesAt s (currentPlayer s) pos 0 in
                     case performMove_loop_snap s1 stones (currentPlayer s1) pos False [s1] of
                       Inl e \<Rightarrow> Inl e
                     | Inr (s2, lastStoneInMancala, snaps) \<Rightarrow>
                         Inr (if \<not> lastStoneInMancala
                              then s2\<lparr>currentPlayer := other_player (currentPlayer s2)\<rparr>
                              else s2,
                              lastStoneInMancala, snaps))))"

text \<open>
  The cells in which two states differ, read off the states themselves: the pits of
  player 1's row by index, then those of player 2's row, then the two mancalas. A pit that
  exists in one row only counts as different.
\<close>

definition row_changes :: "int \<Rightarrow> int list \<Rightarrow> int list \<Rightarrow> touched list" where
  "row_changes p a b =
     map (\<lambda>i. \<lparr>player = p, position = int i, isMancala = False\<rparr>)
       (filter (\<lambda>i. \<not> (i < length a \<and> i < length b \<and> a ! i = b ! i))
          [0 ..< max (length a) (length b)])"

definition changed_cells :: "GameState \<Rightarrow> GameState \<Rightarrow> touched list" where
  "changed_cells a b =
     row_changes 1 (player1Board a) (player1Board b) @
     row_changes 2 (player2Board a) (player2Board b) @
     (if player1 (mancalas a) \<noteq> player1 (mancalas b)
      then [\<lparr>player = 1, position = - 1, isMancala = True\<rparr>] else []) @
     (if player2 (mancalas a) \<noteq> player2 (mancalas b)
      then [\<lparr>player = 2, position = - 1, isMancala = True\<rparr>] else [])"

text \<open>The cells mutated along a list of successive states, step by step.\<close>

fun mutated_cells :: "GameState list \<Rightarrow> touched list" where
  "mutated_cells (a # b # rest) = changed_cells a b @ mutated_cells (b # rest)"
| "mutated_cells [a] = []"
| "mutated_cells [] = []"

text \<open>The number of stones in a cell.\<close>

definition cell_count :: "GameState \<Rightarrow> touched \<Rightarrow> int" where
  "cell_count s c =
     (if isMancala c then mancala_of s (player c) else pit s (player c) (position c))"

text \<open>The states passed through when one stone after another is dropped into the cells of
  a sequence.\<close>

fun sow_states :: "GameState \<Rightarrow> touched list \<Rightarrow> GameState list" where
  "sow_states s [] = []"
| "sow_states s (c # cs) = deposit s c # sow_states (deposit s c) cs"

text \<open>A cell written the way the preview writes it: player 1 or 2, and position \<open>-1\<close> for
  a mancala.\<close>

definition canonical :: "touched \<Rightarrow> bool" where
  "canonical c = ((player c = 1 \<or> player c = 2) \<and> (isMancala c \<longrightarrow> position c = - 1))"


section \<open>The preview loop\<close>

lemma simulateMove_loop_acc_gen:
  "simulateMove_loop s stones i cp pos (pre @ sq) = pre @ simulateMove_loop s stones i cp pos sq"
proof (induction s stones i cp pos sq arbitrary: pre rule: simulateMove_loop.induct)
  case (1 s stones i cp pos sq)
  show ?case
    using "1.IH"
    by (simp add: simulateMove_loop.simps [of s stones i cp pos "pre @ sq"]
        simulateMove_loop.simps [of s stones i cp pos sq] Let_def)
qed

lemma simulateMove_loop_length:
  "length (simulateMove_loop s stones i cp pos sq) = length sq + nat (stones - i)"
proof (induction s stones i cp pos sq rule: simulateMove_loop.induct)
  case (1 s stones i cp pos sq)
  show ?case
    using "1.IH"
    by (auto simp add: simulateMove_loop.simps [of s stones i cp pos sq] Let_def)
qed

lemma simulateMove_loop_shift:
  "stones' - i' = stones - i \<Longrightarrow>
   simulateMove_loop s stones' i' cp pos sq = simulateMove_loop s stones i cp pos sq"
proof (induction s stones i cp pos sq arbitrary: stones' i' rule: simulateMove_loop.induct)
  case (1 s stones i cp pos sq)
  have lt: "i' < stones' \<longleftrightarrow> i < stones" using "1.prems" by arith
  have d: "stones' - (i' + 1) = stones - (i + 1)" using "1.prems" by arith
  note ih = "1.IH" (1) [OF _ _ _ d] "1.IH" (2) [OF _ _ _ d] "1.IH" (3) [OF _ _ d]
  show ?case
    using ih lt
    by (simp add: simulateMove_loop.simps [of s stones i cp pos sq]
          simulateMove_loop.simps [of s stones' i' cp pos sq] Let_def)
qed

lemma simulateMove_loop_cong:
  "pocketsPerSide s' = pocketsPerSide s \<Longrightarrow> currentPlayer s' = currentPlayer s \<Longrightarrow>
   simulateMove_loop s' stones i cp pos sq = simulateMove_loop s stones i cp pos sq"
proof (induction s stones i cp pos sq rule: simulateMove_loop.induct)
  case (1 s stones i cp pos sq)
  show ?case
    using "1.IH" "1.prems"
    by (simp add: simulateMove_loop.simps [of s stones i cp pos sq]
          simulateMove_loop.simps [of s' stones i cp pos sq] Let_def)
qed


lemma cells_nil: "n \<le> 0 \<Longrightarrow> cells s n cp pos = []"
  by (simp add: cells_def simulateMove_loop.simps)

lemma cells_step:
  assumes "0 < n"
  shows "cells s n cp pos =
     (if pocketsPerSide s \<le> pos + 1 then
        (if cp = currentPlayer s
         then \<lparr>player = cp, position = - 1, isMancala = True\<rparr> #
                cells s (n - 1) (other_player cp) (- 1)
         else \<lparr>player = other_player cp, position = 0, isMancala = False\<rparr> #
                cells s (n - 1) (other_player cp) 0)
      else \<lparr>player = cp, position = pos + 1, isMancala = False\<rparr> # cells s (n - 1) cp (pos + 1))"
proof -
  have sh: "simulateMove_loop s n 1 c q [x] = x # simulateMove_loop s (n - 1) 0 c q []"
    for c q x
    using simulateMove_loop_acc_gen [of s n 1 c q "[x]" "[]"]
      simulateMove_loop_shift [of n 1 "n - 1" 0 s c q "[]"]
    by simp
  show ?thesis
    using assms unfolding cells_def
    by (subst simulateMove_loop.simps) (simp add: sh)
qed

lemma cells_length: "length (cells s n cp pos) = nat n"
  by (simp add: cells_def simulateMove_loop_length)

lemma cells_cong:
  "pocketsPerSide s' = pocketsPerSide s \<Longrightarrow> currentPlayer s' = currentPlayer s \<Longrightarrow>
   cells s' n cp pos = cells s n cp pos"
  unfolding cells_def by (rule simulateMove_loop_cong)


section \<open>The sowing loop\<close>

lemma setStonesAt_fields [simp]:
  "pocketsPerSide (setStonesAt s p q v) = pocketsPerSide s"
  "currentPlayer (setStonesAt s p q v) = currentPlayer s"
  "mancalas (setStonesAt s p q v) = mancalas s"
  "dimensions (setStonesAt s p q v) = dimensions s"
  by (simp_all add: setStonesAt_def)

lemma mancala_add_fields [simp]:
  "pocketsPerSide (mancala_add s p n) = pocketsPerSide s"
  "currentPlayer (mancala_add s p n) = currentPlayer s"
  "player1Board (mancala_add s p n) = player1Board s"
  "player2Board (mancala_add s p n) = player2Board s"
  "dimensions (mancala_add s p n) = dimensions s"
  by (simp_all add: mancala_add_def)

lemma data_set_length [simp]: "i < int (length m) \<Longrightarrow> length (data_set m i v) = length m"
  by (simp add: data_set_def)

lemma well_formed_setStonesAt [simp]:
  "well_formed s \<Longrightarrow> q < pocketsPerSide s \<Longrightarrow> well_formed (setStonesAt s p q v)"
  by (auto simp: well_formed_def setStonesAt_def)

lemma well_formed_mancala_add [simp]: "well_formed (mancala_add s p n) = well_formed s"
  by (simp add: well_formed_def)

lemma cell_ok_cong:
  "pocketsPerSide s' = pocketsPerSide s \<Longrightarrow> currentPlayer s' = currentPlayer s \<Longrightarrow>
   cell_ok s' c = cell_ok s c"
  by (simp add: cell_ok_def)

lemma cell_ok_pit [simp]:
  "0 \<le> q \<Longrightarrow> q < pocketsPerSide s \<Longrightarrow>
   cell_ok s \<lparr>player = p, position = q, isMancala = False\<rparr>"
  by (simp add: cell_ok_def)

lemma cell_ok_mancala [simp]:
  "cell_ok s \<lparr>player = currentPlayer s, position = q, isMancala = True\<rparr>"
  by (simp add: cell_ok_def)

lemma deposit_fields [simp]:
  "pocketsPerSide (deposit s c) = pocketsPerSide s"
  "currentPlayer (deposit s c) = currentPlayer s"
  "dimensions (deposit s c) = dimensions s"
  by (simp_all add: deposit_def)

lemma well_formed_deposit [simp]:
  "well_formed s \<Longrightarrow> cell_ok s c \<Longrightarrow> well_formed (deposit s c)"
  by (simp add: deposit_def cell_ok_def)

lemma capture_fields [simp]:
  "pocketsPerSide (capture s c) = pocketsPerSide s"
  "currentPlayer (capture s c) = currentPlayer s"
  "dimensions (capture s c) = dimensions s"
  by (simp_all add: capture_def Let_def)

lemma well_formed_capture:
  "well_formed s \<Longrightarrow> cell_ok s c \<Longrightarrow> \<not> isMancala c \<Longrightarrow> well_formed (capture s c)"
  by (simp add: capture_def Let_def cell_ok_def)

lemma sow_Cons [simp]: "sow s (c # cs) = sow (deposit s c) cs"
  by (simp add: sow_def)

lemma sow_Nil [simp]: "sow s [] = s"
  by (simp add: sow_def)

lemma sow_fields [simp]:
  "pocketsPerSide (sow s cs) = pocketsPerSide s"
  "currentPlayer (sow s cs) = currentPlayer s"
  "dimensions (sow s cs) = dimensions s"
  by (induction cs arbitrary: s; simp)+

lemma well_formed_sow [simp]:
  "well_formed s \<Longrightarrow> \<forall>c\<in>set cs. cell_ok s c \<Longrightarrow> well_formed (sow s cs)"
proof (induction cs arbitrary: s)
  case Nil
  then show ?case by simp
next
  case (Cons c cs)
  have "\<forall>c'\<in>set cs. cell_ok (deposit s c) c'"
    using Cons.prems(2) by (simp add: cell_ok_cong [of "deposit s c" s])
  with Cons.IH [of "deposit s c"] Cons.prems show ?case by simp
qed

lemma settle_fields [simp]:
  "pocketsPerSide (settle s cs) = pocketsPerSide s"
  "currentPlayer (settle s cs) = currentPlayer s"
  "dimensions (settle s cs) = dimensions s"
  by (simp_all add: settle_def Let_def)

lemma well_formed_settle:
  assumes "well_formed s" "\<forall>c\<in>set cs. cell_ok s c"
  shows "well_formed (settle s cs)"
proof (cases "cs \<noteq> [] \<and> capture_applies (sow s cs) (last cs)")
  case False
  then show ?thesis using assms by (auto simp: settle_def Let_def)
next
  case True
  then have "cell_ok (sow s cs) (last cs)" "\<not> isMancala (last cs)"
    using assms(2) by (simp_all add: cell_ok_cong [of "sow s cs" s] capture_applies_def)
  then show ?thesis
    using True assms by (simp add: settle_def Let_def well_formed_capture)
qed

lemma getStonesAt_pit:
  "well_formed s \<Longrightarrow> 0 \<le> q \<Longrightarrow> q < pocketsPerSide s \<Longrightarrow> getStonesAt s p q = Inr (pit s p q)"
  by (auto simp: getStonesAt_def matrix_get_def pit_def well_formed_def)

lemma place_stone_eq:
  assumes "well_formed s" "0 \<le> q" "q < pocketsPerSide s"
  shows "place_stone s n p q =
           Inr (if n = 1 then settle s [\<lparr>player = p, position = q, isMancala = False\<rparr>]
                else deposit s \<lparr>player = p, position = q, isMancala = False\<rparr>, n - 1)"
proof -
  let ?c = "\<lparr>player = p, position = q, isMancala = False\<rparr>"
  let ?b = "deposit s ?c"
  have b: "setStonesAt s p q (pit s p q + 1) = ?b" by (simp add: deposit_def)
  have wb: "well_formed ?b" using assms by simp
  have m: "0 \<le> pocketsPerSide ?b - 1 - q" "pocketsPerSide ?b - 1 - q < pocketsPerSide ?b"
    using assms by simp_all
  have g1: "getStonesAt s p q = Inr (pit s p q)"
    using assms by (rule getStonesAt_pit)
  have g2: "getStonesAt ?b p q = Inr (pit ?b p q)"
    using wb assms(2,3) by (simp add: getStonesAt_pit)
  have g3: "getStonesAt ?b (other_player p) (pocketsPerSide ?b - 1 - q) =
              Inr (pit ?b (other_player p) (pocketsPerSide ?b - 1 - q))"
    using wb m by (rule getStonesAt_pit)
  show ?thesis
    unfolding place_stone_def g1
    by (simp add: b g2 g3 Let_def settle_def capture_applies_def capture_def del: deposit_fields)
qed


lemma settle_Cons: "cs \<noteq> [] \<Longrightarrow> settle s (c # cs) = settle (deposit s c) cs"
  by (simp add: settle_def Let_def)

lemma ends_in_mancala_Cons:
  "ends_in_mancala (c # cs) = (if cs = [] then isMancala c else ends_in_mancala cs)"
  by (simp add: ends_in_mancala_def)

lemma performMove_loop_erase:
  "performMove_loop s stones cp pos l =
     map_sum (\<lambda>e. e) (\<lambda>r. (fst r, fst (snd r)))
       (performMove_loop_traced s stones cp pos l lg it)"
proof (induction s stones cp pos l lg it rule: performMove_loop_traced.induct)
  case (1 s stones cp pos l lg it)
  show ?case
    apply (subst performMove_loop.simps)
    apply (subst performMove_loop_traced.simps)
    using "1.IH"
    apply (auto split: prod.splits sum.splits simp: Let_def)
    done
qed

lemma loop_traced_eq:
  assumes "well_formed s" "0 \<le> pos" "pos < pocketsPerSide s"
  shows "\<exists>it'. performMove_loop_traced s stones cp pos False lg it =
           Inr (settle s (cells s stones cp pos), ends_in_mancala (cells s stones cp pos),
                lg @ cells s stones cp pos, it') \<and>
         it \<le> it' \<and> it' \<le> it + nat stones"
  using assms
proof (induction "nat stones" arbitrary: s stones cp pos lg it rule: less_induct)
  case less
  note wf = \<open>well_formed s\<close>
  show ?case
  proof (cases "0 < stones")
    case False
    then show ?thesis
      by (simp add: performMove_loop_traced.simps cells_nil settle_def ends_in_mancala_def)
  next
    case pos_stones: True
    have placed:
      "\<exists>it'. (case place_stone s' n p q of
                Inl e \<Rightarrow> Inl e
              | Inr (s2, n2) \<Rightarrow>
                  performMove_loop_traced s2 n2 p q False
                    (lg' @ [\<lparr>player = p, position = q, isMancala = False\<rparr>]) (Suc it)) =
             Inr (settle s' (\<lparr>player = p, position = q, isMancala = False\<rparr> #
                               cells s (n - 1) p q),
                  ends_in_mancala (\<lparr>player = p, position = q, isMancala = False\<rparr> #
                               cells s (n - 1) p q),
                  lg' @ \<lparr>player = p, position = q, isMancala = False\<rparr> # cells s (n - 1) p q,
                  it') \<and>
             Suc it \<le> it' \<and> it' \<le> it + nat n"
      if s': "well_formed s'" "pocketsPerSide s' = pocketsPerSide s"
             "currentPlayer s' = currentPlayer s"
        and q: "0 \<le> q" "q < pocketsPerSide s" and n: "0 < n" "n \<le> stones"
      for s' n p q lg'
    proof -
      let ?c = "\<lparr>player = p, position = q, isMancala = False\<rparr>"
      have pl: "place_stone s' n p q =
                  Inr (if n = 1 then settle s' [?c] else deposit s' ?c, n - 1)"
        using s' q by (simp add: place_stone_eq)
      show ?thesis
      proof (cases "n = 1")
        case True
        have "performMove_loop_traced (settle s' [?c]) 0 p q False (lg' @ [?c]) (Suc it) =
                Inr (settle s' [?c], False, lg' @ [?c], Suc it)"
          by (simp add: performMove_loop_traced.simps)
        then show ?thesis
          using True n pl by (simp add: cells_nil ends_in_mancala_def)
      next
        case False
        with n have n2: "0 < n - 1" by simp
        have m: "nat (n - 1) < nat stones" using n by simp
        have c: "cells (deposit s' ?c) (n - 1) p q = cells s (n - 1) p q"
          by (rule cells_cong) (simp_all add: s')
        have ne: "cells s (n - 1) p q \<noteq> []"
          using n2 cells_length [of s "n - 1" p q] by auto
        have wd: "well_formed (deposit s' ?c)"
          using s' q by (simp add: cell_ok_def)
        from less.hyps [OF m, of "deposit s' ?c" q p "lg' @ [?c]" "Suc it"] s' q wd
        obtain it' where
          "performMove_loop_traced (deposit s' ?c) (n - 1) p q False (lg' @ [?c]) (Suc it) =
             Inr (settle (deposit s' ?c) (cells s (n - 1) p q),
                  ends_in_mancala (cells s (n - 1) p q),
                  (lg' @ [?c]) @ cells s (n - 1) p q, it')"
          "Suc it \<le> it'" "it' \<le> Suc it + nat (n - 1)"
          by (auto simp: c)
        then show ?thesis
          using False ne n by (auto simp: pl settle_Cons ends_in_mancala_Cons)
      qed
    qed
    show ?thesis
    proof (cases "pocketsPerSide s \<le> pos + 1")
      case False
      then have e: "end_of_board s stones cp (pos + 1) False =
                      (s, stones, cp, pos + 1, False, False)"
        by (simp add: end_of_board_def)
      have cs: "cells s stones cp pos =
                  \<lparr>player = cp, position = pos + 1, isMancala = False\<rparr> #
                  cells s (stones - 1) cp (pos + 1)"
        using False pos_stones by (simp add: cells_step)
      from placed [of s "pos + 1" stones cp lg] wf False pos_stones less.prems
      show ?thesis
        by (subst performMove_loop_traced.simps) (auto simp add: e cs False pos_stones)
    next
      case edge: True
      show ?thesis
      proof (cases "cp = currentPlayer s")
        case False
        then have e: "end_of_board s stones cp (pos + 1) False =
                        (s, stones, other_player cp, 0, False, False)"
          using edge by (simp add: end_of_board_def)
        have cs: "cells s stones cp pos =
                    \<lparr>player = other_player cp, position = 0, isMancala = False\<rparr> #
                    cells s (stones - 1) (other_player cp) 0"
          using False edge pos_stones by (simp add: cells_step)
        from placed [of s 0 stones "other_player cp" lg] wf False pos_stones less.prems
        show ?thesis
          by (subst performMove_loop_traced.simps) (auto simp add: e cs False edge pos_stones)
      next
        case True
        let ?m = "\<lparr>player = cp, position = - 1, isMancala = True\<rparr>"
        have d: "mancala_add s cp 1 = deposit s ?m" by (simp add: deposit_def)
        show ?thesis
        proof (cases "stones = 1")
          case one: True
          have e: "end_of_board s stones cp (pos + 1) False =
                     (deposit s ?m, 0, cp, pos + 1, True, True)"
            using edge True one d by (simp add: end_of_board_def)
          have cs: "cells s stones cp pos = [?m]"
            using True edge one by (simp add: cells_step cells_nil)
          show ?thesis
            apply (subst performMove_loop_traced.simps)
            using e cs True edge one
            apply (simp add: settle_def capture_applies_def ends_in_mancala_def)
            done
        next
          case False
          with pos_stones have two: "0 < stones - 1" by simp
          have e: "end_of_board s stones cp (pos + 1) False =
                     (deposit s ?m, stones - 1, other_player cp, 0, False, False)"
            using edge True False d by (simp add: end_of_board_def Let_def)
          have P1: "0 < pocketsPerSide s" using less.prems by simp
          have cs: "cells s stones cp pos =
                     ?m # \<lparr>player = other_player cp, position = 0, isMancala = False\<rparr> #
                     cells s (stones - 1 - 1) (other_player cp) 0"
            using True edge pos_stones two P1
            by (simp add: cells_step [of stones] cells_step [of "stones - 1"])
          have wm: "well_formed (deposit s ?m)"
            using wf by (simp add: d [symmetric])
          from placed [of "deposit s ?m" 0 "stones - 1" "other_player cp" "lg @ [?m]"]
            wf two P1 wm
          obtain it' where
            "(case place_stone (deposit s ?m) (stones - 1) (other_player cp) 0 of
                Inl e \<Rightarrow> Inl e
              | Inr (s2, n2) \<Rightarrow>
                  performMove_loop_traced s2 n2 (other_player cp) 0 False
                    ((lg @ [?m]) @
                     [\<lparr>player = other_player cp, position = 0, isMancala = False\<rparr>])
                    (Suc it)) =
             Inr (settle (deposit s ?m)
                    (\<lparr>player = other_player cp, position = 0, isMancala = False\<rparr> #
                     cells s (stones - 1 - 1) (other_player cp) 0),
                  ends_in_mancala
                    (\<lparr>player = other_player cp, position = 0, isMancala = False\<rparr> #
                     cells s (stones - 1 - 1) (other_player cp) 0),
                  (lg @ [?m]) @
                    \<lparr>player = other_player cp, position = 0, isMancala = False\<rparr> #
                    cells s (stones - 1 - 1) (other_player cp) 0,
                  it')"
            "Suc it \<le> it'" "it' \<le> it + nat (stones - 1)"
            by auto
          then show ?thesis
            apply (subst performMove_loop_traced.simps)
            using two e cs True edge pos_stones
            apply (auto simp: settle_Cons ends_in_mancala_Cons)
            done
        qed
      qed
    qed
  qed
qed


section \<open>Counting stones\<close>

lemma sum_list_update_int:
  "i < length xs \<Longrightarrow> sum_list (xs[i := v]) = sum_list xs - xs ! i + (v::int)"
proof (induction xs arbitrary: i)
  case Nil
  then show ?case by simp
next
  case (Cons x xs)
  then show ?case by (cases i) auto
qed

lemma total_setStonesAt:
  assumes "well_formed s" "0 \<le> q" "q < pocketsPerSide s"
  shows "total_stones (setStonesAt s p q v) = total_stones s - pit s p q + v"
  using assms
  by (auto simp: total_stones_def setStonesAt_def data_set_def pit_def well_formed_def
        sum_list_update_int)

lemma total_mancala_add:
  "p = 1 \<or> p = 2 \<Longrightarrow> total_stones (mancala_add s p n) = total_stones s + n"
  by (auto simp: total_stones_def mancala_add_def)

lemma pit_setStonesAt:
  assumes "well_formed s" "0 \<le> q" "q < pocketsPerSide s" "0 \<le> q'" "q' < pocketsPerSide s"
  shows "pit (setStonesAt s p q v) p' q' =
           (if (p = 1 \<longleftrightarrow> p' = 1) \<and> q = q' then v else pit s p' q')"
  using assms
  by (auto simp: setStonesAt_def data_set_def pit_def well_formed_def nth_list_update)

lemma pit_mancala_add [simp]: "pit (mancala_add s p n) p' q = pit s p' q"
  by (simp add: pit_def)

lemma total_deposit:
  assumes "well_formed s" "cell_ok s c"
  shows "total_stones (deposit s c) = total_stones s + 1"
proof (cases "isMancala c")
  case True
  with assms have "player c = 1 \<or> player c = 2"
    by (auto simp: cell_ok_def well_formed_def)
  with True show ?thesis by (simp add: deposit_def total_mancala_add)
next
  case False
  with assms show ?thesis by (simp add: deposit_def cell_ok_def total_setStonesAt)
qed

lemma total_sow:
  "well_formed s \<Longrightarrow> \<forall>c\<in>set cs. cell_ok s c \<Longrightarrow>
   total_stones (sow s cs) = total_stones s + int (length cs)"
proof (induction cs arbitrary: s)
  case Nil
  then show ?case by simp
next
  case (Cons c cs)
  have "\<forall>c'\<in>set cs. cell_ok (deposit s c) c'"
    using Cons.prems(2) by (simp add: cell_ok_cong [of "deposit s c" s])
  with Cons.IH [of "deposit s c"] Cons.prems show ?case
    by (simp add: total_deposit)
qed

lemma total_capture:
  assumes "well_formed b" "cell_ok b c" "capture_applies b c"
  shows "total_stones (capture b c) = total_stones b"
proof -
  let ?p = "player c" and ?q = "position c"
  let ?o = "other_player ?p" and ?m = "pocketsPerSide b - 1 - ?q"
  from assms have c: "\<not> isMancala c" "?p = currentPlayer b" "pit b ?p ?q = 1"
    by (auto simp: capture_applies_def)
  from assms c have q: "0 \<le> ?q" "?q < pocketsPerSide b" by (simp_all add: cell_ok_def)
  then have m: "0 \<le> ?m" "?m < pocketsPerSide b" by simp_all
  from assms(1) c have p: "?p = 1 \<or> ?p = 2" by (auto simp: well_formed_def)
  have d: "(?o = 1) \<noteq> (?p = 1)" using p by (auto simp: other_player_def)
  have "pit (setStonesAt b ?o ?m 0) ?p ?q = 1"
    using assms(1) q m d c by (simp add: pit_setStonesAt)
  then show ?thesis
    using assms(1) q m p
    by (simp add: capture_def Let_def total_mancala_add total_setStonesAt)
qed

lemma total_settle:
  assumes "well_formed s" "\<forall>c\<in>set cs. cell_ok s c"
  shows "total_stones (settle s cs) = total_stones s + int (length cs)"
proof (cases "cs = []")
  case True
  then show ?thesis by (simp add: settle_def)
next
  case False
  then have "cell_ok (sow s cs) (last cs)"
    using assms(2) by (simp add: cell_ok_cong [of "sow s cs" s])
  then have "capture_applies (sow s cs) (last cs) \<Longrightarrow>
             total_stones (capture (sow s cs) (last cs)) = total_stones (sow s cs)"
    using assms by (simp add: total_capture)
  then show ?thesis
    using False assms by (simp add: settle_def Let_def total_sow)
qed

lemma cells_ok:
  assumes "0 < pocketsPerSide s" "- 1 \<le> pos" "pos < pocketsPerSide s"
  shows "\<forall>c\<in>set (cells s n cp pos). cell_ok s c"
  using assms(2,3)
proof (induction "nat n" arbitrary: n cp pos)
  case 0
  then show ?case by (simp add: cells_nil)
next
  case (Suc k)
  then have n: "0 < n" "k = nat (n - 1)" by simp_all
  have a: "\<forall>c\<in>set (cells s (n - 1) (other_player cp) (- 1)). cell_ok s c"
    using Suc.hyps(1) [OF n(2), of "- 1"] assms(1) by simp
  have b: "\<forall>c\<in>set (cells s (n - 1) (other_player cp) 0). cell_ok s c"
    using Suc.hyps(1) [OF n(2), of 0] assms(1) by simp
  have c: "\<not> pocketsPerSide s \<le> pos + 1 \<Longrightarrow>
           \<forall>c\<in>set (cells s (n - 1) cp (pos + 1)). cell_ok s c"
    using Suc.hyps(1) [OF n(2), of "pos + 1"] Suc.prems by simp
  show ?case
    using a b c n(1) Suc.prems assms(1)
    by (simp add: cells_step [of n] cell_ok_def)
qed


section \<open>A whole move\<close>

lemma picked_up_fields [simp]:
  "pocketsPerSide (picked_up s pos) = pocketsPerSide s"
  "currentPlayer (picked_up s pos) = currentPlayer s"
  "dimensions (picked_up s pos) = dimensions s"
  "mancalas (picked_up s pos) = mancalas s"
  by (simp_all add: picked_up_def)

lemma well_formed_picked_up [simp]:
  "well_formed s \<Longrightarrow> pos < pocketsPerSide s \<Longrightarrow> well_formed (picked_up s pos)"
  by (simp add: picked_up_def)

lemma valid_move_facts:
  assumes "well_formed s" "isValidMove s pos = Inr True"
  shows "0 \<le> pos" "pos < pocketsPerSide s"
    "getStonesAt s (currentPlayer s) pos = Inr (pit s (currentPlayer s) pos)"
    "0 < pit s (currentPlayer s) pos"
proof -
  from assms(2) show r: "0 \<le> pos" "pos < pocketsPerSide s"
    by (auto simp: isValidMove_def split: if_splits)
  with assms(1) show g: "getStonesAt s (currentPlayer s) pos = Inr (pit s (currentPlayer s) pos)"
    by (simp add: getStonesAt_pit)
  with assms(2) r show "0 < pit s (currentPlayer s) pos"
    by (simp add: isValidMove_def)
qed

lemma sown_cells_length:
  "0 < pit s (currentPlayer s) pos \<Longrightarrow>
   int (length (sown_cells s pos)) = pit s (currentPlayer s) pos"
  by (simp add: sown_cells_def cells_length)

lemma simulateMove_eq:
  assumes "well_formed s" "isValidMove s pos = Inr True"
  shows "simulateMove s pos = Inr (sown_cells s pos)"
  using assms valid_move_facts(3) [OF assms]
  by (simp add: simulateMove_def sown_cells_def cells_def)

lemma performMove_traced_eq:
  assumes "well_formed s" "isValidMove s pos = Inr True"
  shows "\<exists>it. performMove_traced s pos =
           Inr (pass_turn (sown_cells s pos) (settle (picked_up s pos) (sown_cells s pos)),
                ends_in_mancala (sown_cells s pos), sown_cells s pos, it) \<and>
         it \<le> nat (pit s (currentPlayer s) pos)"
proof -
  note f = valid_move_facts [OF assms]
  have c: "cells (picked_up s pos) (pit s (currentPlayer s) pos) (currentPlayer s) pos =
           sown_cells s pos"
    unfolding sown_cells_def by (rule cells_cong) simp_all
  from loop_traced_eq [of "picked_up s pos" pos "pit s (currentPlayer s) pos"
      "currentPlayer s" "[]" 0] assms(1) f(1,2)
  obtain it where
    "performMove_loop_traced (picked_up s pos) (pit s (currentPlayer s) pos)
       (currentPlayer s) pos False [] 0 =
     Inr (settle (picked_up s pos) (sown_cells s pos), ends_in_mancala (sown_cells s pos),
          sown_cells s pos, it)"
    "it \<le> nat (pit s (currentPlayer s) pos)"
    by (auto simp: c)
  then show ?thesis
    using assms(2) f(3)
    by (auto simp: performMove_traced_def picked_up_def [symmetric] pass_turn_def)
qed

lemma performMove_eq:
  assumes "well_formed s" "isValidMove s pos = Inr True"
  shows "performMove s pos =
           Inr (pass_turn (sown_cells s pos) (settle (picked_up s pos) (sown_cells s pos)),
                ends_in_mancala (sown_cells s pos))"
proof -
  note f = valid_move_facts [OF assms]
  have c: "cells (picked_up s pos) (pit s (currentPlayer s) pos) (currentPlayer s) pos =
           sown_cells s pos"
    unfolding sown_cells_def by (rule cells_cong) simp_all
  from loop_traced_eq [of "picked_up s pos" pos "pit s (currentPlayer s) pos"
      "currentPlayer s" "[]" 0] assms(1) f(1,2)
  obtain it where
    "performMove_loop_traced (picked_up s pos) (pit s (currentPlayer s) pos)
       (currentPlayer s) pos False [] 0 =
     Inr (settle (picked_up s pos) (sown_cells s pos), ends_in_mancala (sown_cells s pos),
          sown_cells s pos, it)"
    by (auto simp: c)
  then have "performMove_loop (picked_up s pos) (pit s (currentPlayer s) pos)
       (currentPlayer s) pos False =
     Inr (settle (picked_up s pos) (sown_cells s pos), ends_in_mancala (sown_cells s pos))"
    by (simp add: performMove_loop_erase [where lg = "[]" and it = 0])
  then show ?thesis
    using assms(2) f(3)
    by (auto simp: performMove_def picked_up_def [symmetric] pass_turn_def)
qed

lemma sown_cells_ok:
  assumes "well_formed s" "isValidMove s pos = Inr True"
  shows "\<forall>c\<in>set (sown_cells s pos). cell_ok s c"
  unfolding sown_cells_def
  using valid_move_facts(1,2) [OF assms] by (intro cells_ok) simp_all

lemma sown_cells_nonempty:
  assumes "well_formed s" "isValidMove s pos = Inr True"
  shows "sown_cells s pos \<noteq> []"
  using sown_cells_length [of s pos] valid_move_facts(4) [OF assms] by auto


section \<open>Mancalas, captures and conservation\<close>

lemma other_player_range: "other_player p = 1 \<or> other_player p = 2"
  by (simp add: other_player_def)


lemma pass_turn_fields [simp]:
  "pocketsPerSide (pass_turn cs x) = pocketsPerSide x"
  "dimensions (pass_turn cs x) = dimensions x"
  "player1Board (pass_turn cs x) = player1Board x"
  "player2Board (pass_turn cs x) = player2Board x"
  "mancalas (pass_turn cs x) = mancalas x"
  "pit (pass_turn cs x) p q = pit x p q"
  "mancala_of (pass_turn cs x) p = mancala_of x p"
  "total_stones (pass_turn cs x) = total_stones x"
  by (simp_all add: pass_turn_def pit_def mancala_of_def total_stones_def)


lemma well_formed_pass_turn: "well_formed x \<Longrightarrow> well_formed (pass_turn cs x)"
  using other_player_range [of "currentPlayer x"]
  by (auto simp: pass_turn_def well_formed_def)

lemma mancala_of_setStonesAt [simp]: "mancala_of (setStonesAt s p q v) p' = mancala_of s p'"
  by (simp add: mancala_of_def)

lemma mancala_of_mancala_add:
  "p = 1 \<or> p = 2 \<Longrightarrow>
   mancala_of (mancala_add s p n) p' =
     (if (p = 1) = (p' = 1) then mancala_of s p' + n else mancala_of s p')"
  by (auto simp: mancala_of_def mancala_add_def)

lemma mancala_of_deposit:
  assumes "well_formed s" "cell_ok s c"
  shows "mancala_of (deposit s c) (other_player (currentPlayer s)) =
           mancala_of s (other_player (currentPlayer s))"
    and "mancala_of s (currentPlayer s) \<le> mancala_of (deposit s c) (currentPlayer s)"
  using assms
  by (auto simp: deposit_def cell_ok_def well_formed_def mancala_of_mancala_add other_player_def)

lemma mancala_of_sow:
  "well_formed s \<Longrightarrow> \<forall>c\<in>set cs. cell_ok s c \<Longrightarrow>
   mancala_of (sow s cs) (other_player (currentPlayer s)) =
     mancala_of s (other_player (currentPlayer s)) \<and>
   mancala_of s (currentPlayer s) \<le> mancala_of (sow s cs) (currentPlayer s)"
proof (induction cs arbitrary: s)
  case Nil
  then show ?case by simp
next
  case (Cons c cs)
  have "\<forall>c'\<in>set cs. cell_ok (deposit s c) c'"
    using Cons.prems(2) by (simp add: cell_ok_cong [of "deposit s c" s])
  with Cons.IH [of "deposit s c"] Cons.prems mancala_of_deposit [of s c]
  show ?case by auto
qed

lemma capture_effect:
  assumes "well_formed b" "cell_ok b c" "\<not> isMancala c" "player c = currentPlayer b"
  shows "pit (capture b c) (player c) (position c) = 0"
    and "pit (capture b c) (other_player (player c)) (pocketsPerSide b - 1 - position c) = 0"
    and "mancala_of (capture b c) (player c) =
           mancala_of b (player c) +
           pit b (other_player (player c)) (pocketsPerSide b - 1 - position c) + 1"
    and "mancala_of (capture b c) (other_player (player c)) =
           mancala_of b (other_player (player c))"
    and "0 \<le> j \<Longrightarrow> j < pocketsPerSide b \<Longrightarrow> j \<noteq> position c \<Longrightarrow>
           pit (capture b c) (player c) j = pit b (player c) j"
    and "0 \<le> j \<Longrightarrow> j < pocketsPerSide b \<Longrightarrow> j \<noteq> pocketsPerSide b - 1 - position c \<Longrightarrow>
           pit (capture b c) (other_player (player c)) j = pit b (other_player (player c)) j"
proof -
  let ?p = "player c" and ?q = "position c"
  let ?o = "other_player ?p" and ?m = "pocketsPerSide b - 1 - ?q"
  from assms have q: "0 \<le> ?q" "?q < pocketsPerSide b" by (simp_all add: cell_ok_def)
  then have m: "0 \<le> ?m" "?m < pocketsPerSide b" by simp_all
  from assms have p: "?p = 1 \<or> ?p = 2" by (auto simp: well_formed_def)
  have d: "(?o = 1) \<noteq> (?p = 1)" using p by (auto simp: other_player_def)
  have w: "well_formed (setStonesAt b ?o ?m 0)" using assms(1) m by simp
  show "pit (capture b c) ?p ?q = 0"
    using w q by (simp add: capture_def Let_def pit_setStonesAt)
  show "pit (capture b c) ?o ?m = 0"
    using w assms(1) q m d by (simp add: capture_def Let_def pit_setStonesAt)
  show "mancala_of (capture b c) ?p = mancala_of b ?p + pit b ?o ?m + 1"
    using p by (simp add: capture_def Let_def mancala_of_mancala_add)
  show "mancala_of (capture b c) ?o = mancala_of b ?o"
    using p d by (simp add: capture_def Let_def mancala_of_mancala_add)
  show "pit (capture b c) ?p j = pit b ?p j"
    if "0 \<le> j" "j < pocketsPerSide b" "j \<noteq> ?q"
    using that w assms(1) q m d by (simp add: capture_def Let_def pit_setStonesAt)
  show "pit (capture b c) ?o j = pit b ?o j"
    if "0 \<le> j" "j < pocketsPerSide b" "j \<noteq> ?m"
    using that w assms(1) q m d by (simp add: capture_def Let_def pit_setStonesAt)
qed

lemma valid_or_not:
  assumes "well_formed s"
  shows "isValidMove s pos = Inr True \<or> isValidMove s pos = Inr False"
  using assms by (auto simp: isValidMove_def getStonesAt_pit)

lemma performMove_conserves:
  assumes "well_formed s"
  shows "\<exists>s' k. performMove s pos = Inr (s', k) \<and> well_formed s' \<and>
                 total_stones s' = total_stones s"
proof (cases "isValidMove s pos = Inr True")
  case False
  with valid_or_not [OF assms, of pos] have "isValidMove s pos = Inr False" by simp
  then show ?thesis using assms by (auto simp: performMove_def)
next
  case True
  note f = valid_move_facts [OF assms True]
  let ?cs = "sown_cells s pos"
  have ok: "\<forall>c\<in>set ?cs. cell_ok (picked_up s pos) c"
    using sown_cells_ok [OF assms True] by (simp add: cell_ok_cong [of "picked_up s pos" s])
  have "total_stones (settle (picked_up s pos) ?cs) =
          total_stones (picked_up s pos) + int (length ?cs)"
    using assms f(2) ok by (simp add: total_settle)
  also have "total_stones (picked_up s pos) = total_stones s - pit s (currentPlayer s) pos"
    using assms f(1,2) by (simp add: picked_up_def total_setStonesAt)
  finally have "total_stones (settle (picked_up s pos) ?cs) = total_stones s"
    using f(4) by (simp add: sown_cells_length)
  moreover have "well_formed (settle (picked_up s pos) ?cs)"
    using assms f(2) ok by (simp add: well_formed_settle)
  ultimately show ?thesis
    by (simp add: performMove_eq [OF assms True] well_formed_pass_turn)
qed

lemma play_conserves:
  "well_formed s \<Longrightarrow>
   \<exists>s'. play s ms = Inr s' \<and> well_formed s' \<and> total_stones s' = total_stones s"
proof (induction ms arbitrary: s)
  case Nil
  then show ?case by simp
next
  case (Cons m ms)
  from performMove_conserves [OF Cons.prems, of m] obtain s1 k where
    s1: "performMove s m = Inr (s1, k)" "well_formed s1" "total_stones s1 = total_stones s"
    by blast
  from Cons.IH [OF s1(2)] s1 show ?case by auto
qed

lemma GameState_new_eq:
  "0 \<le> P \<Longrightarrow> P < 4294967296 \<Longrightarrow>
   GameState_new d P =
     Inr \<lparr>dimensions = d, pocketsPerSide = P, currentPlayer = 1,
          player1Board = replicate (nat P) 4, player2Board = replicate (nat P) 4,
          mancalas = \<lparr>player1 = 0, player2 = 0\<rparr>\<rparr>"
  by (simp add: GameState_new_def initialize_def Array_fill_def)

lemma restartGame_eq:
  "restartGame S =
     Inr \<lparr>dimensions = 2, pocketsPerSide = 6, currentPlayer = 1,
          player1Board = replicate 6 S, player2Board = replicate 6 S,
          mancalas = \<lparr>player1 = 0, player2 = 0\<rparr>\<rparr>"
proof -
  have u: "[0 .. (5::int)] = [0, 1, 2, 3, 4, 5]"
    by code_simp
  have g: "GameState_new 2 6 = Inr start6"
    by (simp add: GameState_new_eq start6_def eval_nat_numeral)
  show ?thesis
    by (simp add: restartGame_def g start6_def u setStonesAt_def data_set_def eval_nat_numeral)
qed

lemma start6_wf: "well_formed start6"
  by (simp add: well_formed_def start6_def)

lemma start6_valid2: "isValidMove start6 2 = Inr True"
  by (simp add: isValidMove_def getStonesAt_def matrix_get_def start6_def)

lemma mancala_of_settle:
  assumes "well_formed s" "\<forall>c\<in>set cs. cell_ok s c"
  shows "mancala_of (settle s cs) (other_player (currentPlayer s)) =
           mancala_of s (other_player (currentPlayer s))"
    and "mancala_of s (currentPlayer s) \<le> mancala_of (settle s cs) (currentPlayer s)"
proof -
  let ?b = "sow s cs" and ?c = "last cs"
  note sw = mancala_of_sow [OF assms]
  have both: "mancala_of (settle s cs) (other_player (currentPlayer s)) =
           mancala_of s (other_player (currentPlayer s)) \<and>
        mancala_of s (currentPlayer s) \<le> mancala_of (settle s cs) (currentPlayer s)"
  proof (cases "cs \<noteq> [] \<and> capture_applies ?b ?c")
    case False
    then show ?thesis using sw by (auto simp: settle_def Let_def)
  next
    case True
    then have c: "\<not> isMancala ?c" "player ?c = currentPlayer s"
      "0 < pit ?b (other_player (player ?c)) (pocketsPerSide ?b - 1 - position ?c)"
      by (auto simp: capture_applies_def)
    have ok: "cell_ok ?b ?c"
      using True assms(2) by (simp add: cell_ok_cong [of ?b s])
    have w: "well_formed ?b" using assms by simp
    have p: "player ?c = currentPlayer ?b" using c(2) by simp
    from capture_effect(3,4) [OF w ok c(1) p] c sw True
    show ?thesis by (simp add: settle_def Let_def)
  qed
  from both show "mancala_of (settle s cs) (other_player (currentPlayer s)) =
           mancala_of s (other_player (currentPlayer s))" by simp
  from both show "mancala_of s (currentPlayer s) \<le> mancala_of (settle s cs) (currentPlayer s)"
    by simp
qed

lemma full_mirror_wf: "well_formed full_mirror"
  by (simp add: well_formed_def full_mirror_def start6_def)

lemma full_mirror_valid0: "isValidMove full_mirror 0 = Inr True"
  by (simp add: isValidMove_def getStonesAt_def matrix_get_def full_mirror_def start6_def)

lemma long_lap_wf: "well_formed long_lap"
  by (simp add: well_formed_def long_lap_def start6_def)

lemma long_lap_valid5: "isValidMove long_lap 5 = Inr True"
  by (simp add: isValidMove_def getStonesAt_def matrix_get_def long_lap_def start6_def)


section \<open>The states a move passes through\<close>

lemma place_stone_snap_fst:
  "map_sum (\<lambda>e. e) (\<lambda>r. (fst r, fst (snd r))) (place_stone_snap s n p q) = place_stone s n p q"
  by (simp add: place_stone_snap_def place_stone_def Let_def split: sum.splits)

lemma place_stone_snap_eq:
  assumes "well_formed s" "0 \<le> q" "q < pocketsPerSide s"
  shows "place_stone_snap s n p q =
           Inr (if n = 1 then settle s [\<lparr>player = p, position = q, isMancala = False\<rparr>]
                else deposit s \<lparr>player = p, position = q, isMancala = False\<rparr>, n - 1,
                deposit s \<lparr>player = p, position = q, isMancala = False\<rparr>)"
proof -
  let ?c = "\<lparr>player = p, position = q, isMancala = False\<rparr>"
  have g: "getStonesAt s p q = Inr (pit s p q)"
    using assms by (rule getStonesAt_pit)
  have w: "setStonesAt s p q (pit s p q + 1) = deposit s ?c" by (simp add: deposit_def)
  from place_stone_eq [OF assms, of n p] place_stone_snap_fst [of s n p q]
  obtain x where x: "place_stone_snap s n p q =
      Inr (if n = 1 then settle s [?c] else deposit s ?c, n - 1, x)"
    by (cases "place_stone_snap s n p q") auto
  have "place_stone_snap s n p q = Inr r \<Longrightarrow> snd (snd r) = deposit s ?c" for r
    by (auto simp: place_stone_snap_def g w Let_def split: sum.splits if_splits)
  with x show ?thesis by fastforce
qed


lemma sow_states_length [simp]: "length (sow_states b cs) = length cs"
  by (induction cs arbitrary: b) simp_all

lemma sow_states_nth:
  "k \<le> length cs \<Longrightarrow> (b # sow_states b cs) ! k = sow b (take k cs)"
proof (induction cs arbitrary: b k)
  case Nil
  then show ?case by simp
next
  case (Cons c cs)
  then show ?case by (cases k) simp_all
qed

lemma sow_snoc: "sow b (cs @ [c]) = deposit (sow b cs) c"
  by (simp add: sow_def)

lemma sow_states_take: "take k (sow_states b cs) = sow_states b (take k cs)"
proof (induction cs arbitrary: b k)
  case Nil
  then show ?case by simp
next
  case (Cons c cs)
  then show ?case by (cases k) simp_all
qed

lemma sow_states_last: "last (b # sow_states b cs) = sow b cs"
  by (induction cs arbitrary: b) simp_all

lemma loop_snap_eq:
  assumes "well_formed s" "0 \<le> pos" "pos < pocketsPerSide s"
  shows "performMove_loop_snap s stones cp pos False sn =
           Inr (settle s (cells s stones cp pos), ends_in_mancala (cells s stones cp pos),
                sn @ sow_states s (cells s stones cp pos))"
  using assms
proof (induction "nat stones" arbitrary: s stones cp pos sn rule: less_induct)
  case less
  note wf = \<open>well_formed s\<close>
  show ?case
  proof (cases "0 < stones")
    case False
    then show ?thesis
      by (simp add: performMove_loop_snap.simps cells_nil settle_def ends_in_mancala_def)
  next
    case pos_stones: True
    have placed:
      "(case place_stone_snap s' n p q of
          Inl e \<Rightarrow> Inl e
        | Inr (s2, n2, written) \<Rightarrow>
            performMove_loop_snap s2 n2 p q False (sn' @ [written])) =
       Inr (settle s' (\<lparr>player = p, position = q, isMancala = False\<rparr> # cells s (n - 1) p q),
            ends_in_mancala
              (\<lparr>player = p, position = q, isMancala = False\<rparr> # cells s (n - 1) p q),
            sn' @ sow_states s'
              (\<lparr>player = p, position = q, isMancala = False\<rparr> # cells s (n - 1) p q))"
      if s': "well_formed s'" "pocketsPerSide s' = pocketsPerSide s"
             "currentPlayer s' = currentPlayer s"
        and q: "0 \<le> q" "q < pocketsPerSide s" and n: "0 < n" "n \<le> stones"
      for s' n p q sn'
    proof -
      let ?c = "\<lparr>player = p, position = q, isMancala = False\<rparr>"
      have pl: "place_stone_snap s' n p q =
                  Inr (if n = 1 then settle s' [?c] else deposit s' ?c, n - 1, deposit s' ?c)"
        using s' q by (simp add: place_stone_snap_eq)
      show ?thesis
      proof (cases "n = 1")
        case True
        have "performMove_loop_snap (settle s' [?c]) 0 p q False (sn' @ [deposit s' ?c]) =
                Inr (settle s' [?c], False, sn' @ [deposit s' ?c])"
          by (simp add: performMove_loop_snap.simps)
        then show ?thesis
          using True n pl by (simp add: cells_nil ends_in_mancala_def)
      next
        case False
        with n have n2: "0 < n - 1" by simp
        have m: "nat (n - 1) < nat stones" using n by simp
        have c: "cells (deposit s' ?c) (n - 1) p q = cells s (n - 1) p q"
          by (rule cells_cong) (simp_all add: s')
        have ne: "cells s (n - 1) p q \<noteq> []"
          using n2 cells_length [of s "n - 1" p q] by auto
        have wd: "well_formed (deposit s' ?c)"
          using s' q by (simp add: cell_ok_def)
        from less.hyps [OF m, of "deposit s' ?c" q p "sn' @ [deposit s' ?c]"] s' q wd
        have "performMove_loop_snap (deposit s' ?c) (n - 1) p q False (sn' @ [deposit s' ?c]) =
             Inr (settle (deposit s' ?c) (cells s (n - 1) p q),
                  ends_in_mancala (cells s (n - 1) p q),
                  (sn' @ [deposit s' ?c]) @ sow_states (deposit s' ?c) (cells s (n - 1) p q))"
          by (simp add: c)
        then show ?thesis
          using False ne n by (simp add: pl settle_Cons ends_in_mancala_Cons)
      qed
    qed
    show ?thesis
    proof (cases "pocketsPerSide s \<le> pos + 1")
      case False
      then have e: "end_of_board s stones cp (pos + 1) False =
                      (s, stones, cp, pos + 1, False, False)"
        by (simp add: end_of_board_def)
      have cs: "cells s stones cp pos =
                  \<lparr>player = cp, position = pos + 1, isMancala = False\<rparr> #
                  cells s (stones - 1) cp (pos + 1)"
        using False pos_stones by (simp add: cells_step)
      from placed [of s "pos + 1" stones cp sn] wf False pos_stones less.prems
      show ?thesis
        by (subst performMove_loop_snap.simps) (simp add: e cs False pos_stones)
    next
      case edge: True
      show ?thesis
      proof (cases "cp = currentPlayer s")
        case False
        then have e: "end_of_board s stones cp (pos + 1) False =
                        (s, stones, other_player cp, 0, False, False)"
          using edge by (simp add: end_of_board_def)
        have cs: "cells s stones cp pos =
                    \<lparr>player = other_player cp, position = 0, isMancala = False\<rparr> #
                    cells s (stones - 1) (other_player cp) 0"
          using False edge pos_stones by (simp add: cells_step)
        from placed [of s 0 stones "other_player cp" sn] wf False pos_stones less.prems
        show ?thesis
          by (subst performMove_loop_snap.simps) (simp add: e cs False edge pos_stones)
      next
        case True
        let ?m = "\<lparr>player = cp, position = - 1, isMancala = True\<rparr>"
        have d: "mancala_add s cp 1 = deposit s ?m" by (simp add: deposit_def)
        show ?thesis
        proof (cases "stones = 1")
          case one: True
          have e: "end_of_board s stones cp (pos + 1) False =
                     (deposit s ?m, 0, cp, pos + 1, True, True)"
            using edge True one d by (simp add: end_of_board_def)
          have cs: "cells s stones cp pos = [?m]"
            using True edge one by (simp add: cells_step cells_nil)
          show ?thesis
            apply (subst performMove_loop_snap.simps)
            using e cs True edge one
            apply (simp add: settle_def capture_applies_def ends_in_mancala_def)
            done
        next
          case False
          with pos_stones have two: "0 < stones - 1" by simp
          have e: "end_of_board s stones cp (pos + 1) False =
                     (deposit s ?m, stones - 1, other_player cp, 0, False, False)"
            using edge True False d by (simp add: end_of_board_def Let_def)
          have P1: "0 < pocketsPerSide s" using less.prems by simp
          have cs: "cells s stones cp pos =
                     ?m # \<lparr>player = other_player cp, position = 0, isMancala = False\<rparr> #
                     cells s (stones - 1 - 1) (other_player cp) 0"
            using True edge pos_stones two P1
            by (simp add: cells_step [of stones] cells_step [of "stones - 1"])
          have wm: "well_formed (deposit s ?m)"
            using wf by (simp add: d [symmetric])
          from placed [of "deposit s ?m" 0 "stones - 1" "other_player cp" "sn @ [deposit s ?m]"]
            wf two P1 wm
          have "(case place_stone_snap (deposit s ?m) (stones - 1) (other_player cp) 0 of
                Inl e \<Rightarrow> Inl e
              | Inr (s2, n2, written) \<Rightarrow>
                  performMove_loop_snap s2 n2 (other_player cp) 0 False
                    ((sn @ [deposit s ?m]) @ [written])) =
             Inr (settle (deposit s ?m)
                    (\<lparr>player = other_player cp, position = 0, isMancala = False\<rparr> #
                     cells s (stones - 1 - 1) (other_player cp) 0),
                  ends_in_mancala
                    (\<lparr>player = other_player cp, position = 0, isMancala = False\<rparr> #
                     cells s (stones - 1 - 1) (other_player cp) 0),
                  (sn @ [deposit s ?m]) @ sow_states (deposit s ?m)
                    (\<lparr>player = other_player cp, position = 0, isMancala = False\<rparr> #
                     cells s (stones - 1 - 1) (other_player cp) 0))"
            by simp
          then show ?thesis
            apply (subst performMove_loop_snap.simps)
            using two e cs True edge pos_stones
            apply (auto simp: settle_Cons ends_in_mancala_Cons)
            done
        qed
      qed
    qed
  qed
qed

lemma performMove_snap_eq:
  assumes "well_formed s" "isValidMove s pos = Inr True"
  shows "performMove_snap s pos =
           Inr (pass_turn (sown_cells s pos) (settle (picked_up s pos) (sown_cells s pos)),
                ends_in_mancala (sown_cells s pos),
                picked_up s pos # sow_states (picked_up s pos) (sown_cells s pos))"
proof -
  note f = valid_move_facts [OF assms]
  have c: "cells (picked_up s pos) (pit s (currentPlayer s) pos) (currentPlayer s) pos =
           sown_cells s pos"
    unfolding sown_cells_def by (rule cells_cong) simp_all
  from loop_snap_eq [of "picked_up s pos" pos "pit s (currentPlayer s) pos"
      "currentPlayer s" "[picked_up s pos]"] assms(1) f(1,2)
  have "performMove_loop_snap (picked_up s pos) (pit s (currentPlayer s) pos)
       (currentPlayer s) pos False [picked_up s pos] =
     Inr (settle (picked_up s pos) (sown_cells s pos), ends_in_mancala (sown_cells s pos),
          picked_up s pos # sow_states (picked_up s pos) (sown_cells s pos))"
    by (simp add: c)
  then show ?thesis
    using assms(2) f(3)
    by (auto simp: performMove_snap_def picked_up_def [symmetric] pass_turn_def Let_def)
qed

lemma filter_eq_upt: "q < n \<Longrightarrow> filter (\<lambda>i. i = q) [0 ..< n] = [q]"
proof (induction n)
  case 0
  then show ?case by simp
next
  case (Suc n)
  show ?case
  proof (cases "q = n")
    case True
    have "filter (\<lambda>i. i = n) [0 ..< n] = []" by (simp add: filter_empty_conv)
    with True show ?thesis by simp
  next
    case False
    with Suc show ?thesis by simp
  qed
qed

lemma row_changes_same [simp]: "row_changes p a a = []"
  by (simp add: row_changes_def filter_empty_conv)

lemma row_changes_update:
  assumes "q < length a" "v \<noteq> a ! q"
  shows "row_changes p a (a[q := v]) = [\<lparr>player = p, position = int q, isMancala = False\<rparr>]"
proof -
  have "filter (\<lambda>i. \<not> (i < length a \<and> i < length (a[q := v]) \<and> a ! i = a[q := v] ! i))
          [0 ..< max (length a) (length (a[q := v]))] =
        filter (\<lambda>i. i = q) [0 ..< length a]"
    using assms by (auto intro!: filter_cong simp: nth_list_update)
  then show ?thesis
    using assms(1) by (simp add: row_changes_def filter_eq_upt)
qed

lemma changed_cells_deposit:
  assumes "well_formed b" "cell_ok b c" "canonical c"
  shows "changed_cells b (deposit b c) = [c]"
    and "cell_count (deposit b c) c = cell_count b c + 1"
proof -
  from assms(3) have p: "player c = 1 \<or> player c = 2" by (simp add: canonical_def)
  have both: "changed_cells b (deposit b c) = [c] \<and>
              cell_count (deposit b c) c = cell_count b c + 1"
  proof (cases "isMancala c")
    case True
    with assms(3) have "position c = - 1" by (simp add: canonical_def)
    with True have c: "c = \<lparr>player = player c, position = - 1, isMancala = True\<rparr>"
      by (cases c) simp
    show ?thesis
      using p True c
      by (auto simp: changed_cells_def deposit_def mancala_add_def cell_count_def
            mancala_of_def)
  next
    case False
    with assms(2) have q: "0 \<le> position c" "position c < pocketsPerSide b"
      by (simp_all add: cell_ok_def)
    from False q have c: "c = \<lparr>player = player c, position = int (nat (position c)),
                                isMancala = False\<rparr>"
      by (cases c) simp
    from assms(1) q have l: "nat (position c) < length (player1Board b)"
      "nat (position c) < length (player2Board b)"
      "position c < int (length (player1Board b))"
      "position c < int (length (player2Board b))"
      by (auto simp: well_formed_def)
    show ?thesis
    proof (cases "player c = 1")
      case True
      have "changed_cells b (deposit b c) =
              [\<lparr>player = 1, position = int (nat (position c)), isMancala = False\<rparr>]"
        using True False q l
        by (simp add: changed_cells_def deposit_def setStonesAt_def data_set_def pit_def
              row_changes_update)
      moreover have "cell_count (deposit b c) c = cell_count b c + 1"
        using True False q l
        by (simp add: cell_count_def deposit_def setStonesAt_def data_set_def pit_def)
      ultimately show ?thesis using c True by simp
    next
      case F: False
      with p have two: "player c = 2" by simp
      have "changed_cells b (deposit b c) =
              [\<lparr>player = 2, position = int (nat (position c)), isMancala = False\<rparr>]"
        using two False q l
        by (simp add: changed_cells_def deposit_def setStonesAt_def data_set_def pit_def
              row_changes_update)
      moreover have "cell_count (deposit b c) c = cell_count b c + 1"
        using two False q l
        by (simp add: cell_count_def deposit_def setStonesAt_def data_set_def pit_def)
      ultimately show ?thesis using c two by simp
    qed
  qed
  from both show "changed_cells b (deposit b c) = [c]" by simp
  from both show "cell_count (deposit b c) c = cell_count b c + 1" by simp
qed

lemma mutated_cells_sow_states:
  "well_formed b \<Longrightarrow> \<forall>c\<in>set cs. cell_ok b c \<and> canonical c \<Longrightarrow>
   mutated_cells (b # sow_states b cs) = cs"
proof (induction cs arbitrary: b)
  case Nil
  then show ?case by simp
next
  case (Cons c cs)
  have "\<forall>c'\<in>set cs. cell_ok (deposit b c) c' \<and> canonical c'"
    using Cons.prems(2) by (simp add: cell_ok_cong [of "deposit b c" b])
  with Cons.IH [of "deposit b c"] Cons.prems show ?case
    by (simp add: changed_cells_deposit)
qed

lemma cells_canonical:
  assumes "cp = 1 \<or> cp = 2"
  shows "\<forall>c\<in>set (cells s n cp pos). canonical c"
  using assms
proof (induction "nat n" arbitrary: n cp pos)
  case 0
  then show ?case by (simp add: cells_nil)
next
  case (Suc k)
  then have n: "0 < n" "k = nat (n - 1)" by simp_all
  note o = other_player_range [of cp]
  have a: "\<forall>c\<in>set (cells s (n - 1) (other_player cp) q). canonical c" for q
    using Suc.hyps(1) [OF n(2) o] .
  have c: "\<forall>c\<in>set (cells s (n - 1) cp q). canonical c" for q
    using Suc.hyps(1) [OF n(2) Suc.prems] .
  show ?case
    using a c n(1) Suc.prems o
    by (auto simp: cells_step [of n] canonical_def)
qed

lemma sown_cells_canonical:
  assumes "well_formed s"
  shows "\<forall>c\<in>set (sown_cells s pos). canonical c"
  unfolding sown_cells_def
  using assms by (intro cells_canonical) (simp add: well_formed_def)

lemma sow_states_step:
  assumes "well_formed b" "\<forall>c\<in>set cs. cell_ok b c \<and> canonical c" "k < length cs"
  shows "changed_cells ((b # sow_states b cs) ! k) ((b # sow_states b cs) ! Suc k) = [cs ! k]"
    and "cell_count ((b # sow_states b cs) ! Suc k) (cs ! k) =
           cell_count ((b # sow_states b cs) ! k) (cs ! k) + 1"
proof -
  let ?bk = "sow b (take k cs)"
  have a: "(b # sow_states b cs) ! k = ?bk"
    using assms(3) by (simp add: sow_states_nth)
  have "(b # sow_states b cs) ! Suc k = sow b (take (Suc k) cs)"
    using assms(3) sow_states_nth [of "Suc k" cs b] by simp
  then have b: "(b # sow_states b cs) ! Suc k = deposit ?bk (cs ! k)"
    using assms(3) by (simp add: take_Suc_conv_app_nth sow_snoc)
  have "\<forall>c\<in>set (take k cs). cell_ok b c"
    using assms(2) by (auto dest: in_set_takeD)
  then have w: "well_formed ?bk" using assms(1) by simp
  have c: "cs ! k \<in> set cs" using assms(3) by simp
  then have ok: "cell_ok ?bk (cs ! k)" "canonical (cs ! k)"
    using assms(2) by (simp_all add: cell_ok_cong [of ?bk b])
  show "changed_cells ((b # sow_states b cs) ! k) ((b # sow_states b cs) ! Suc k) = [cs ! k]"
    unfolding a b by (rule changed_cells_deposit(1) [OF w ok])
  show "cell_count ((b # sow_states b cs) ! Suc k) (cs ! k) =
           cell_count ((b # sow_states b cs) ! k) (cs ! k) + 1"
    unfolding a b by (rule changed_cells_deposit(2) [OF w ok])
qed

lemma sow_states_prefix:
  assumes "well_formed b" "\<forall>c\<in>set cs. cell_ok b c \<and> canonical c"
  shows "mutated_cells (take (Suc k) (b # sow_states b cs)) = take k cs"
proof -
  have "\<forall>c\<in>set (take k cs). cell_ok b c \<and> canonical c"
    using assms(2) by (auto dest: in_set_takeD)
  then show ?thesis
    using assms(1) by (simp add: sow_states_take mutated_cells_sow_states)
qed

section \<open>Claims about a whole move\<close>

text \<open>
  Claim C1. For every well-formed state and every position that \<^verbatim>\<open>isValidMove\<close> accepts,
  the sequence returned by \<^verbatim>\<open>simulateMove\<close> is exactly the sequence of cells that the
  sowing of \<^verbatim>\<open>performMove\<close> mutates on the same state, deposits into the mover's mancala
  included, in the same order and for every prefix. The mutated cells are read off the
  states themselves: \<^const>\<open>performMove_snap\<close> returns the state and the flag of
  \<^const>\<open>performMove\<close> together with the state right after the chosen pit has been emptied
  and the state right after each write that sows a stone; from each of these states to the
  next exactly one cell differs, it is the previewed cell of that step, and it holds one
  stone more. The cells in which successive states differ, listed in order, are the
  preview, and those of the first \<open>k\<close> writes are its first \<open>k\<close> entries. The log of
  \<^const>\<open>performMove_traced\<close> is the same sequence. After the last of these states only the
  capture test and the turn rule follow; they come after the sowing and are not part of
  the visitation the preview shows.
\<close>

theorem simulate_matches_perform:
  assumes "well_formed s" "isValidMove s pos = Inr True"
  shows "\<exists>s' keeps snaps lg it sq.
           performMove_snap s pos = Inr (s', keeps, snaps) \<and>
           performMove_traced s pos = Inr (s', keeps, lg, it) \<and>
           performMove s pos = Inr (s', keeps) \<and>
           simulateMove s pos = Inr sq \<and> lg = sq \<and>
           length snaps = Suc (length sq) \<and> snaps ! 0 = picked_up s pos \<and>
           mutated_cells snaps = sq \<and>
           (\<forall>k<length sq.
              changed_cells (snaps ! k) (snaps ! Suc k) = [sq ! k] \<and>
              cell_count (snaps ! Suc k) (sq ! k) = cell_count (snaps ! k) (sq ! k) + 1) \<and>
           (\<forall>k\<le>length sq. mutated_cells (take (Suc k) snaps) = take k sq) \<and>
           s' = pass_turn sq
                  (if capture_applies (last snaps) (last sq)
                   then capture (last snaps) (last sq) else last snaps)"
proof -
  let ?pu = "picked_up s pos" and ?cs = "sown_cells s pos"
  let ?sn = "?pu # sow_states ?pu ?cs"
  let ?s' = "pass_turn ?cs (settle ?pu ?cs)"
  note f = valid_move_facts [OF assms]
  have w: "well_formed ?pu" using assms(1) f(2) by simp
  have ok: "\<forall>c\<in>set ?cs. cell_ok ?pu c \<and> canonical c"
    using sown_cells_ok [OF assms] sown_cells_canonical [OF assms(1), of pos]
    by (simp add: cell_ok_cong [of ?pu s])
  have ne: "?cs \<noteq> []" by (rule sown_cells_nonempty [OF assms])
  from performMove_traced_eq [OF assms] obtain it where
    tr: "performMove_traced s pos = Inr (?s', ends_in_mancala ?cs, ?cs, it)"
    by blast
  have l: "length ?sn = Suc (length ?cs) \<and> ?sn ! 0 = ?pu" by simp
  have m: "mutated_cells ?sn = ?cs"
    using w ok by (rule mutated_cells_sow_states)
  have st: "\<forall>k<length ?cs.
              changed_cells (?sn ! k) (?sn ! Suc k) = [?cs ! k] \<and>
              cell_count (?sn ! Suc k) (?cs ! k) = cell_count (?sn ! k) (?cs ! k) + 1"
    using sow_states_step [OF w ok] by blast
  have pr: "\<forall>k\<le>length ?cs. mutated_cells (take (Suc k) ?sn) = take k ?cs"
    using sow_states_prefix [OF w ok] by blast
  have fin: "?s' = pass_turn ?cs
                  (if capture_applies (last ?sn) (last ?cs)
                   then capture (last ?sn) (last ?cs) else last ?sn)"
    using ne by (simp add: settle_def Let_def sow_states_last del: last.simps)
  show ?thesis
    using performMove_snap_eq [OF assms] tr performMove_eq [OF assms] simulateMove_eq [OF assms]
      l m st pr fin
    by blast
qed

text \<open>Thirteen stones from pit 5: the states of the move differ, one after the other, in
  the mover's mancala, player 2's six pits, then player 1's six pits, which is the
  preview. On the board of the capture, the one sown stone changes pit 1, the preview's
  only cell.\<close>

theorem simulate_matches_perform_witness:
  "well_formed long_lap \<and> isValidMove long_lap 5 = Inr True \<and>
   simulateMove long_lap 5 =
     Inr [\<lparr>player = 1, position = - 1, isMancala = True\<rparr>,
          \<lparr>player = 2, position = 0, isMancala = False\<rparr>,
          \<lparr>player = 2, position = 1, isMancala = False\<rparr>,
          \<lparr>player = 2, position = 2, isMancala = False\<rparr>,
          \<lparr>player = 2, position = 3, isMancala = False\<rparr>,
          \<lparr>player = 2, position = 4, isMancala = False\<rparr>,
          \<lparr>player = 2, position = 5, isMancala = False\<rparr>,
          \<lparr>player = 1, position = 0, isMancala = False\<rparr>,
          \<lparr>player = 1, position = 1, isMancala = False\<rparr>,
          \<lparr>player = 1, position = 2, isMancala = False\<rparr>,
          \<lparr>player = 1, position = 3, isMancala = False\<rparr>,
          \<lparr>player = 1, position = 4, isMancala = False\<rparr>,
          \<lparr>player = 1, position = 5, isMancala = False\<rparr>] \<and>
   (case performMove_snap long_lap 5 of
      Inl e \<Rightarrow> []
    | Inr (s', keeps, snaps) \<Rightarrow> mutated_cells snaps) =
     [\<lparr>player = 1, position = - 1, isMancala = True\<rparr>,
          \<lparr>player = 2, position = 0, isMancala = False\<rparr>,
          \<lparr>player = 2, position = 1, isMancala = False\<rparr>,
          \<lparr>player = 2, position = 2, isMancala = False\<rparr>,
          \<lparr>player = 2, position = 3, isMancala = False\<rparr>,
          \<lparr>player = 2, position = 4, isMancala = False\<rparr>,
          \<lparr>player = 2, position = 5, isMancala = False\<rparr>,
          \<lparr>player = 1, position = 0, isMancala = False\<rparr>,
          \<lparr>player = 1, position = 1, isMancala = False\<rparr>,
          \<lparr>player = 1, position = 2, isMancala = False\<rparr>,
          \<lparr>player = 1, position = 3, isMancala = False\<rparr>,
          \<lparr>player = 1, position = 4, isMancala = False\<rparr>,
          \<lparr>player = 1, position = 5, isMancala = False\<rparr>] \<and>
   simulateMove full_mirror 0 = Inr [\<lparr>player = 1, position = 1, isMancala = False\<rparr>] \<and>
   (case performMove_snap full_mirror 0 of
      Inl e \<Rightarrow> []
    | Inr (s', keeps, snaps) \<Rightarrow> mutated_cells snaps) =
     [\<lparr>player = 1, position = 1, isMancala = False\<rparr>] \<and>
   (\<exists>s' keeps snaps lg it sq.
      performMove_snap long_lap 5 = Inr (s', keeps, snaps) \<and>
      performMove_traced long_lap 5 = Inr (s', keeps, lg, it) \<and>
      performMove long_lap 5 = Inr (s', keeps) \<and>
      simulateMove long_lap 5 = Inr sq \<and> lg = sq \<and>
      length snaps = Suc (length sq) \<and> snaps ! 0 = picked_up long_lap 5 \<and>
      mutated_cells snaps = sq \<and>
      (\<forall>k<length sq.
         changed_cells (snaps ! k) (snaps ! Suc k) = [sq ! k] \<and>
         cell_count (snaps ! Suc k) (sq ! k) = cell_count (snaps ! k) (sq ! k) + 1) \<and>
      (\<forall>k\<le>length sq. mutated_cells (take (Suc k) snaps) = take k sq) \<and>
      s' = pass_turn sq
             (if capture_applies (last snaps) (last sq)
              then capture (last snaps) (last sq) else last snaps))"
proof -
  have e1: "simulateMove long_lap 5 =
     Inr [\<lparr>player = 1, position = - 1, isMancala = True\<rparr>,
          \<lparr>player = 2, position = 0, isMancala = False\<rparr>,
          \<lparr>player = 2, position = 1, isMancala = False\<rparr>,
          \<lparr>player = 2, position = 2, isMancala = False\<rparr>,
          \<lparr>player = 2, position = 3, isMancala = False\<rparr>,
          \<lparr>player = 2, position = 4, isMancala = False\<rparr>,
          \<lparr>player = 2, position = 5, isMancala = False\<rparr>,
          \<lparr>player = 1, position = 0, isMancala = False\<rparr>,
          \<lparr>player = 1, position = 1, isMancala = False\<rparr>,
          \<lparr>player = 1, position = 2, isMancala = False\<rparr>,
          \<lparr>player = 1, position = 3, isMancala = False\<rparr>,
          \<lparr>player = 1, position = 4, isMancala = False\<rparr>,
          \<lparr>player = 1, position = 5, isMancala = False\<rparr>]"
    by code_simp
  have e2: "(case performMove_snap long_lap 5 of
      Inl e \<Rightarrow> []
    | Inr (s', keeps, snaps) \<Rightarrow> mutated_cells snaps) =
     [\<lparr>player = 1, position = - 1, isMancala = True\<rparr>,
          \<lparr>player = 2, position = 0, isMancala = False\<rparr>,
          \<lparr>player = 2, position = 1, isMancala = False\<rparr>,
          \<lparr>player = 2, position = 2, isMancala = False\<rparr>,
          \<lparr>player = 2, position = 3, isMancala = False\<rparr>,
          \<lparr>player = 2, position = 4, isMancala = False\<rparr>,
          \<lparr>player = 2, position = 5, isMancala = False\<rparr>,
          \<lparr>player = 1, position = 0, isMancala = False\<rparr>,
          \<lparr>player = 1, position = 1, isMancala = False\<rparr>,
          \<lparr>player = 1, position = 2, isMancala = False\<rparr>,
          \<lparr>player = 1, position = 3, isMancala = False\<rparr>,
          \<lparr>player = 1, position = 4, isMancala = False\<rparr>,
          \<lparr>player = 1, position = 5, isMancala = False\<rparr>]"
    by code_simp
  have e3: "simulateMove full_mirror 0 =
     Inr [\<lparr>player = 1, position = 1, isMancala = False\<rparr>]"
    by code_simp
  have e4: "(case performMove_snap full_mirror 0 of
      Inl e \<Rightarrow> []
    | Inr (s', keeps, snaps) \<Rightarrow> mutated_cells snaps) =
     [\<lparr>player = 1, position = 1, isMancala = False\<rparr>]"
    by code_simp
  note t = simulate_matches_perform [OF long_lap_wf long_lap_valid5]
  from long_lap_wf long_lap_valid5 e1 e2 e3 e4 t show ?thesis by (intro conjI)
qed

text \<open>
  Claim C8. For every well-formed state and valid position \<^verbatim>\<open>performMove\<close> returns a
  result (the loop is a total function, and no read fails); with \<open>n\<close> the number of
  stones picked up, the loop runs at most \<open>n\<close> iterations and sows exactly \<open>n\<close>
  stones.
\<close>

theorem move_terminates_bounded:
  assumes "well_formed s" "isValidMove s pos = Inr True"
  shows "\<exists>n s' keeps lg it.
           getStonesAt s (currentPlayer s) pos = Inr n \<and>
           performMove_traced s pos = Inr (s', keeps, lg, it) \<and>
           performMove s pos = Inr (s', keeps) \<and>
           int it \<le> n \<and> int (length lg) = n"
proof -
  note f = valid_move_facts [OF assms]
  from performMove_traced_eq [OF assms] obtain it where
    "performMove_traced s pos =
       Inr (pass_turn (sown_cells s pos) (settle (picked_up s pos) (sown_cells s pos)),
            ends_in_mancala (sown_cells s pos), sown_cells s pos, it)"
    "it \<le> nat (pit s (currentPlayer s) pos)"
    by blast
  then show ?thesis
    using f(3,4) performMove_eq [OF assms] sown_cells_length [OF f(4)]
    by auto
qed

text \<open>Thirteen stones from pit 5: twelve iterations (the first sows two stones),
  thirteen cells.\<close>

theorem move_terminates_bounded_witness:
  "well_formed long_lap \<and> isValidMove long_lap 5 = Inr True \<and>
   getStonesAt long_lap (currentPlayer long_lap) 5 = Inr 13 \<and>
   (\<exists>n s' keeps lg it.
      getStonesAt long_lap (currentPlayer long_lap) 5 = Inr n \<and>
      performMove_traced long_lap 5 = Inr (s', keeps, lg, it) \<and>
      performMove long_lap 5 = Inr (s', keeps) \<and>
      int it \<le> n \<and> int (length lg) = n)"
proof -
  have e: "getStonesAt long_lap (currentPlayer long_lap) 5 = Inr 13"
    by (simp add: getStonesAt_def matrix_get_def long_lap_def start6_def)
  note t = move_terminates_bounded [OF long_lap_wf long_lap_valid5]
  from long_lap_wf long_lap_valid5 e t show ?thesis by (intro conjI)
qed



text \<open>
  Claim C5. For every well-formed state and valid position (whatever the number of stones
  in the pit), no stone is sown into the opponent's mancala: every mancala entry among the
  sown cells is the mover's, the opponent's mancala count after the move is what it was
  before, and the mover's has not decreased.
\<close>

theorem opponent_store_untouched:
  assumes "well_formed s" "isValidMove s pos = Inr True"
  shows "\<exists>s' keeps lg it.
           performMove_traced s pos = Inr (s', keeps, lg, it) \<and>
           performMove s pos = Inr (s', keeps) \<and>
           (\<forall>c\<in>set lg. isMancala c \<longrightarrow> player c = currentPlayer s) \<and>
           mancala_of s' (other_player (currentPlayer s)) =
             mancala_of s (other_player (currentPlayer s)) \<and>
           mancala_of s (currentPlayer s) \<le> mancala_of s' (currentPlayer s)"
proof -
  let ?cs = "sown_cells s pos"
  have ok: "\<forall>c\<in>set ?cs. cell_ok (picked_up s pos) c"
    using sown_cells_ok [OF assms] by (simp add: cell_ok_cong [of "picked_up s pos" s])
  have w: "well_formed (picked_up s pos)"
    using assms(1) valid_move_facts(2) [OF assms] by simp
  have m: "\<forall>c\<in>set ?cs. isMancala c \<longrightarrow> player c = currentPlayer s"
    using sown_cells_ok [OF assms] by (auto simp: cell_ok_def)
  from performMove_traced_eq [OF assms] obtain it where
    "performMove_traced s pos =
       Inr (pass_turn ?cs (settle (picked_up s pos) ?cs), ends_in_mancala ?cs, ?cs, it)"
    by blast
  then show ?thesis
    using performMove_eq [OF assms] m mancala_of_settle [OF w ok]
    by (auto simp: mancala_of_def picked_up_def)
qed

text \<open>Thirteen stones from pit 5 go once round the board and end with a capture: player
  2's mancala still holds 0, player 1's holds 7.\<close>

theorem opponent_store_untouched_witness:
  "well_formed long_lap \<and> isValidMove long_lap 5 = Inr True \<and>
   performMove long_lap 5 =
     Inr (long_lap\<lparr>currentPlayer := 2, player1Board := [5, 5, 5, 5, 5, 0],
            player2Board := [0, 5, 5, 5, 5, 5],
            mancalas := \<lparr>player1 = 7, player2 = 0\<rparr>\<rparr>, False) \<and>
   (\<exists>s' keeps lg it.
      performMove_traced long_lap 5 = Inr (s', keeps, lg, it) \<and>
      performMove long_lap 5 = Inr (s', keeps) \<and>
      (\<forall>c\<in>set lg. isMancala c \<longrightarrow> player c = currentPlayer long_lap) \<and>
      mancala_of s' (other_player (currentPlayer long_lap)) =
        mancala_of long_lap (other_player (currentPlayer long_lap)) \<and>
      mancala_of long_lap (currentPlayer long_lap) \<le> mancala_of s' (currentPlayer long_lap))"
proof -
  have e: "performMove long_lap 5 =
     Inr (long_lap\<lparr>currentPlayer := 2, player1Board := [5, 5, 5, 5, 5, 0],
            player2Board := [0, 5, 5, 5, 5, 5],
            mancalas := \<lparr>player1 = 7, player2 = 0\<rparr>\<rparr>, False)"
    by code_simp
  note t = opponent_store_untouched [OF long_lap_wf long_lap_valid5]
  from long_lap_wf long_lap_valid5 e t show ?thesis by (intro conjI)
qed

text \<open>
  Claim C3. Any series of \<^verbatim>\<open>performMove\<close> calls (legal moves; a rejected position
  changes nothing) from a well-formed state returns a state with the same number of stones
  in rows and mancalas together. From the state the constructor builds for \<open>P\<close> pits per
  side that number is \<open>2 * P * 4\<close>, and from the state \<^verbatim>\<open>restartGame\<close> builds with
  \<open>S\<close> stones per pit it is \<open>2 * 6 * S\<close>: twice the pits per side times the initial
  stones. Every intermediate state is the result of a shorter series, so the count holds
  at every point.
\<close>

theorem stones_conserved:
  "(well_formed s0 \<longrightarrow> (\<exists>s. play s0 ms = Inr s \<and> total_stones s = total_stones s0)) \<and>
   (0 \<le> P \<and> P < 4294967296 \<longrightarrow>
      (\<exists>g s. GameState_new d P = Inr g \<and> play g ms = Inr s \<and> total_stones s = 2 * P * 4)) \<and>
   (\<exists>g s. restartGame S = Inr g \<and> play g ms = Inr s \<and> total_stones s = 2 * 6 * S)"
proof (intro conjI impI)
  assume "well_formed s0"
  from play_conserves [OF this, of ms]
  show "\<exists>s. play s0 ms = Inr s \<and> total_stones s = total_stones s0" by blast
next
  assume P: "0 \<le> P \<and> P < 4294967296"
  let ?g = "\<lparr>dimensions = d, pocketsPerSide = P, currentPlayer = 1,
             player1Board = replicate (nat P) 4, player2Board = replicate (nat P) 4,
             mancalas = \<lparr>player1 = 0, player2 = 0\<rparr>\<rparr>"
  have w: "well_formed ?g" using P by (simp add: well_formed_def)
  have t: "total_stones ?g = 2 * P * 4"
    using P by (simp add: total_stones_def sum_list_replicate)
  from play_conserves [OF w, of ms] t GameState_new_eq [of P d] P
  show "\<exists>g s. GameState_new d P = Inr g \<and> play g ms = Inr s \<and> total_stones s = 2 * P * 4"
    by auto
next
  let ?g = "\<lparr>dimensions = 2, pocketsPerSide = 6, currentPlayer = 1,
             player1Board = replicate 6 S, player2Board = replicate 6 S,
             mancalas = \<lparr>player1 = 0, player2 = 0\<rparr>\<rparr>"
  have w: "well_formed ?g" by (simp add: well_formed_def)
  have t: "total_stones ?g = 2 * 6 * S"
    by (simp add: total_stones_def sum_list_replicate)
  from play_conserves [OF w, of ms] t restartGame_eq [of S]
  show "\<exists>g s. restartGame S = Inr g \<and> play g ms = Inr s \<and> total_stones s = 2 * 6 * S"
    by auto
qed

text \<open>Pit 2, then pit 5, from the starting board of 48 stones.\<close>

theorem stones_conserved_witness:
  "well_formed start6 \<and> (0::int) \<le> 6 \<and> (6::int) < 4294967296 \<and>
   total_stones start6 = 48 \<and>
   (\<exists>s. play start6 [2, 5] = Inr s \<and> total_stones s = total_stones start6) \<and>
   (\<exists>g s. GameState_new 2 6 = Inr g \<and> play g [2, 5] = Inr s \<and> total_stones s = 2 * 6 * 4)"
proof -
  have t: "total_stones start6 = 48" by (simp add: total_stones_def start6_def)
  show ?thesis
    using stones_conserved [of start6 "[2, 5]" 6 2 4] start6_wf t by simp
qed

text \<open>
  Claim C2, as amended. Let \<open>b\<close> be the board as sown (the chosen pit emptied, one stone
  dropped into each sown cell) and \<open>c\<close> the cell of the last stone. A capture occurs if
  and only if \<open>c\<close> is a pit of the mover that now holds exactly 1 (it was empty) and the
  mirror pit, at index \<open>P - 1 - landingIndex\<close> of the opponent's row, is not empty. When
  it occurs, the landing pit and the mirror pit are 0, the mover's mancala has gained the
  mirror pit's stones plus the landing stone, and nothing else differs from \<open>b\<close>. When
  it does not, rows and mancalas are those of \<open>b\<close>.
\<close>

theorem capture_rule:
  assumes "well_formed s" "isValidMove s pos = Inr True"
  shows "\<exists>s' keeps lg it.
           performMove_traced s pos = Inr (s', keeps, lg, it) \<and>
           performMove s pos = Inr (s', keeps) \<and> lg \<noteq> [] \<and>
           (let b = sow (picked_up s pos) lg;
                c = last lg;
                cur = currentPlayer s;
                opp = other_player cur;
                li = position c;
                mi = pocketsPerSide s - 1 - li
            in if \<not> isMancala c \<and> player c = cur \<and> pit b cur li = 1 \<and> 0 < pit b opp mi
               then pit s' cur li = 0 \<and> pit s' opp mi = 0 \<and>
                    mancala_of s' cur = mancala_of b cur + pit b opp mi + 1 \<and>
                    mancala_of s' opp = mancala_of b opp \<and>
                    (\<forall>j. 0 \<le> j \<and> j < pocketsPerSide s \<and> j \<noteq> li \<longrightarrow>
                           pit s' cur j = pit b cur j) \<and>
                    (\<forall>j. 0 \<le> j \<and> j < pocketsPerSide s \<and> j \<noteq> mi \<longrightarrow>
                           pit s' opp j = pit b opp j)
               else player1Board s' = player1Board b \<and> player2Board s' = player2Board b \<and>
                    mancalas s' = mancalas b)"
proof -
  let ?cs = "sown_cells s pos"
  let ?b = "sow (picked_up s pos) ?cs" and ?c = "last ?cs"
  let ?s' = "pass_turn ?cs (settle (picked_up s pos) ?cs)"
  have ne: "?cs \<noteq> []" by (rule sown_cells_nonempty [OF assms])
  then have "cell_ok s ?c" using sown_cells_ok [OF assms] by simp
  then have ok: "cell_ok ?b ?c" by (simp add: cell_ok_cong [of ?b s])
  have oks: "\<forall>c\<in>set ?cs. cell_ok (picked_up s pos) c"
    using sown_cells_ok [OF assms] by (simp add: cell_ok_cong [of "picked_up s pos" s])
  have w: "well_formed ?b"
    using assms(1) valid_move_facts(2) [OF assms] oks by simp
  have ca: "capture_applies ?b ?c \<longleftrightarrow>
              \<not> isMancala ?c \<and> player ?c = currentPlayer s \<and>
              pit ?b (currentPlayer s) (position ?c) = 1 \<and>
              0 < pit ?b (other_player (currentPlayer s)) (pocketsPerSide s - 1 - position ?c)"
    by (auto simp: capture_applies_def)
  have eff: "(let b = ?b; c = ?c; cur = currentPlayer s; opp = other_player cur;
                li = position c; mi = pocketsPerSide s - 1 - li
            in if \<not> isMancala c \<and> player c = cur \<and> pit b cur li = 1 \<and> 0 < pit b opp mi
               then pit ?s' cur li = 0 \<and> pit ?s' opp mi = 0 \<and>
                    mancala_of ?s' cur = mancala_of b cur + pit b opp mi + 1 \<and>
                    mancala_of ?s' opp = mancala_of b opp \<and>
                    (\<forall>j. 0 \<le> j \<and> j < pocketsPerSide s \<and> j \<noteq> li \<longrightarrow>
                           pit ?s' cur j = pit b cur j) \<and>
                    (\<forall>j. 0 \<le> j \<and> j < pocketsPerSide s \<and> j \<noteq> mi \<longrightarrow>
                           pit ?s' opp j = pit b opp j)
               else player1Board ?s' = player1Board b \<and> player2Board ?s' = player2Board b \<and>
                    mancalas ?s' = mancalas b)"
  proof (cases "capture_applies ?b ?c")
    case False
    then have "settle (picked_up s pos) ?cs = ?b" using ne by (simp add: settle_def Let_def)
    then show ?thesis using False ca by (simp add: Let_def)
  next
    case True
    then have st: "settle (picked_up s pos) ?cs = capture ?b ?c"
      using ne by (simp add: settle_def Let_def)
    from True ca have c: "\<not> isMancala ?c" "player ?c = currentPlayer s" by simp_all
    then have p: "player ?c = currentPlayer ?b" by simp
    note e = capture_effect [OF w ok c(1) p]
    show ?thesis
      using True ca e c(2) by (simp add: Let_def st)
  qed
  from performMove_traced_eq [OF assms] obtain it where
    "performMove_traced s pos = Inr (?s', ends_in_mancala ?cs, ?cs, it)"
    by blast
  then show ?thesis
    using performMove_eq [OF assms] ne eff by (intro exI [of _ ?s'] exI conjI) auto
qed

text \<open>A capture: the single stone of pit 0 lands in the empty pit 1, opposite 4 stones;
  both pits end empty and the mover's mancala holds 5.\<close>

theorem capture_rule_witness:
  "well_formed full_mirror \<and> isValidMove full_mirror 0 = Inr True \<and>
   performMove full_mirror 0 =
     Inr (full_mirror\<lparr>currentPlayer := 2, player1Board := [0, 0, 4, 4, 4, 4],
            player2Board := [4, 4, 4, 4, 0, 4],
            mancalas := \<lparr>player1 = 5, player2 = 0\<rparr>\<rparr>, False) \<and>
   (\<exists>s' keeps lg it.
      performMove_traced full_mirror 0 = Inr (s', keeps, lg, it) \<and>
      performMove full_mirror 0 = Inr (s', keeps) \<and> lg \<noteq> [] \<and>
      (let b = sow (picked_up full_mirror 0) lg;
           c = last lg;
           cur = currentPlayer full_mirror;
           opp = other_player cur;
           li = position c;
           mi = pocketsPerSide full_mirror - 1 - li
       in if \<not> isMancala c \<and> player c = cur \<and> pit b cur li = 1 \<and> 0 < pit b opp mi
          then pit s' cur li = 0 \<and> pit s' opp mi = 0 \<and>
               mancala_of s' cur = mancala_of b cur + pit b opp mi + 1 \<and>
               mancala_of s' opp = mancala_of b opp \<and>
               (\<forall>j. 0 \<le> j \<and> j < pocketsPerSide full_mirror \<and> j \<noteq> li \<longrightarrow>
                      pit s' cur j = pit b cur j) \<and>
               (\<forall>j. 0 \<le> j \<and> j < pocketsPerSide full_mirror \<and> j \<noteq> mi \<longrightarrow>
                      pit s' opp j = pit b opp j)
          else player1Board s' = player1Board b \<and> player2Board s' = player2Board b \<and>
               mancalas s' = mancalas b))"
proof -
  have e: "performMove full_mirror 0 =
     Inr (full_mirror\<lparr>currentPlayer := 2, player1Board := [0, 0, 4, 4, 4, 4],
            player2Board := [4, 4, 4, 4, 0, 4],
            mancalas := \<lparr>player1 = 5, player2 = 0\<rparr>\<rparr>, False)"
    by code_simp
  show ?thesis
    using capture_rule [OF full_mirror_wf full_mirror_valid0] full_mirror_wf
      full_mirror_valid0 e
    by blast
qed

text \<open>
  The claim as written asks for nothing but an empty landing pit of the mover. On this
  board the single stone of pit 0 lands in the mover's empty pit 1, whose mirror pit is
  empty too: the landing pit keeps its stone and the mancalas are unchanged, so no capture
  has occurred.
\<close>

theorem capture_counterexample:
  "well_formed empty_mirror \<and> isValidMove empty_mirror 0 = Inr True \<and>
   simulateMove empty_mirror 0 = Inr [\<lparr>player = 1, position = 1, isMancala = False\<rparr>] \<and>
   currentPlayer empty_mirror = 1 \<and> getStonesAt empty_mirror 1 1 = Inr 0 \<and>
   performMove empty_mirror 0 =
     Inr (empty_mirror\<lparr>currentPlayer := 2, player1Board := [0, 1, 4, 4, 4, 4]\<rparr>, False) \<and>
   getStonesAt (empty_mirror\<lparr>currentPlayer := 2, player1Board := [0, 1, 4, 4, 4, 4]\<rparr>) 1 1 =
     Inr 1 \<and>
   mancalas (empty_mirror\<lparr>currentPlayer := 2, player1Board := [0, 1, 4, 4, 4, 4]\<rparr>) =
     mancalas empty_mirror"
proof -
  have "performMove empty_mirror 0 =
     Inr (empty_mirror\<lparr>currentPlayer := 2, player1Board := [0, 1, 4, 4, 4, 4]\<rparr>, False)"
    by code_simp
  moreover have "simulateMove empty_mirror 0 =
     Inr [\<lparr>player = 1, position = 1, isMancala = False\<rparr>]"
    by code_simp
  ultimately show ?thesis
    by (simp add: well_formed_def empty_mirror_def start6_def isValidMove_def getStonesAt_def
          matrix_get_def)
qed

section \<open>Claims about validation, pit access, the preview length and construction\<close>

text \<open>
  Claim C7. For every state and every position that is out of range (negative, or at or
  beyond \<open>pocketsPerSide\<close>) or whose pit in the current player's row is empty (the read
  succeeds with a count that is not positive), \<^verbatim>\<open>isValidMove\<close> returns false and
  \<^verbatim>\<open>performMove\<close> returns false with the very same state: no pit, no mancala and not
  the turn marker has changed.
\<close>

theorem invalid_move_noop:
  assumes "pos < 0 \<or> pocketsPerSide s \<le> pos \<or>
           (\<exists>n. getStonesAt s (currentPlayer s) pos = Inr n \<and> n \<le> 0)"
  shows "isValidMove s pos = Inr False \<and> performMove s pos = Inr (s, False)"
proof -
  have "isValidMove s pos = Inr False"
    using assms by (auto simp: isValidMove_def)
  then show ?thesis by (simp add: performMove_def)
qed

text \<open>The empty pit 1 of a six-pit board, and the positions 6 and \<open>-1\<close> of the starting
  board.\<close>

theorem invalid_move_noop_witness:
  "getStonesAt (start6\<lparr>player1Board := [4, 0, 4, 4, 4, 4]\<rparr>) 1 1 = Inr 0 \<and>
   isValidMove (start6\<lparr>player1Board := [4, 0, 4, 4, 4, 4]\<rparr>) 1 = Inr False \<and>
   performMove (start6\<lparr>player1Board := [4, 0, 4, 4, 4, 4]\<rparr>) 1 =
     Inr (start6\<lparr>player1Board := [4, 0, 4, 4, 4, 4]\<rparr>, False) \<and>
   isValidMove start6 6 = Inr False \<and> performMove start6 6 = Inr (start6, False) \<and>
   isValidMove start6 (- 1) = Inr False \<and> performMove start6 (- 1) = Inr (start6, False)"
proof -
  have e: "getStonesAt (start6\<lparr>player1Board := [4, 0, 4, 4, 4, 4]\<rparr>) 1 1 = Inr 0"
    by (simp add: start6_def getStonesAt_def matrix_get_def)
  have c: "currentPlayer (start6\<lparr>player1Board := [4, 0, 4, 4, 4, 4]\<rparr>) = 1"
    by (simp add: start6_def)
  have p: "pocketsPerSide start6 = 6" by (simp add: start6_def)
  show ?thesis
    using invalid_move_noop [of 1 "start6\<lparr>player1Board := [4, 0, 4, 4, 4, 4]\<rparr>"]
      invalid_move_noop [of 6 start6] invalid_move_noop [of "- 1" start6] e c p
    by simp
qed

text \<open>
  Claim C9. The player argument of \<^verbatim>\<open>getStonesAt\<close> and \<^verbatim>\<open>setStonesAt\<close> is only
  compared with 1: for every player value \<open>p\<close> other than 1, the read gives what the
  read for player 2 gives, and the write is the write for player 2; it leaves player 1's
  row alone and, at an in-range position, replaces that cell of player 2's row.
\<close>

theorem player_argument_unchecked:
  assumes "p \<noteq> 1"
  shows "getStonesAt s p pos = getStonesAt s 2 pos \<and>
         setStonesAt s p pos c = setStonesAt s 2 pos c \<and>
         player1Board (setStonesAt s p pos c) = player1Board s \<and>
         (0 \<le> pos \<and> pos < int (length (player2Board s)) \<longrightarrow>
            player2Board (setStonesAt s p pos c) = (player2Board s)[nat pos := c] \<and>
            getStonesAt (setStonesAt s p pos c) 2 pos = Inr c)"
  using assms by (auto simp: getStonesAt_def setStonesAt_def data_set_def matrix_get_def)

text \<open>Player value 3 at position 2 of the starting board.\<close>

theorem player_argument_unchecked_witness:
  "(3::int) \<noteq> 1 \<and> (0::int) \<le> 2 \<and> 2 < int (length (player2Board start6)) \<and>
   getStonesAt start6 3 2 = getStonesAt start6 2 2 \<and>
   setStonesAt start6 3 2 9 = setStonesAt start6 2 2 9 \<and>
   player1Board (setStonesAt start6 3 2 9) = player1Board start6 \<and>
   player2Board (setStonesAt start6 3 2 9) = (player2Board start6)[nat 2 := 9] \<and>
   getStonesAt (setStonesAt start6 3 2 9) 2 2 = Inr 9"
proof -
  have n: "(3::int) \<noteq> 1" by simp
  have l: "(0::int) \<le> 2 \<and> 2 < int (length (player2Board start6))"
    by (simp add: start6_def)
  show ?thesis
    using player_argument_unchecked [OF n, of start6 2 9] n l by blast
qed

text \<open>
  Claim C10. For every state and every position that \<^verbatim>\<open>isValidMove\<close> accepts,
  \<^verbatim>\<open>simulateMove\<close> returns a sequence whose length is exactly the stone count of the
  chosen pit: one entry for each stone, none for crossing a row boundary.
\<close>

theorem simulateMove_length:
  assumes "isValidMove s pos = Inr True"
  shows "\<exists>n sq. getStonesAt s (currentPlayer s) pos = Inr n \<and>
                 simulateMove s pos = Inr sq \<and> int (length sq) = n"
proof -
  from assms obtain n where n: "getStonesAt s (currentPlayer s) pos = Inr n" "0 < n"
    by (auto simp: isValidMove_def split: if_splits sum.splits)
  have "simulateMove s pos = Inr (simulateMove_loop s n 0 (currentPlayer s) pos [])"
    using assms n by (simp add: simulateMove_def)
  moreover have "int (length (simulateMove_loop s n 0 (currentPlayer s) pos [])) = n"
    using n by (simp add: simulateMove_loop_length)
  ultimately show ?thesis using n by simp
qed

text \<open>Pit 2 of the starting board, holding 4 stones.\<close>

theorem simulateMove_length_witness:
  "isValidMove start6 2 = Inr True \<and>
   (\<exists>n sq. getStonesAt start6 (currentPlayer start6) 2 = Inr n \<and>
            simulateMove start6 2 = Inr sq \<and> int (length sq) = n)"
  using simulateMove_length [OF start6_valid2] start6_valid2 by simp

text \<open>
  Claim C6, as amended. The constructor takes the dimensions and \<open>pocketsPerSide = P\<close>
  and no initial-stones value: for \<open>0 \<le> P < 2^32\<close> it produces two rows of length \<open>P\<close>
  whose cells all hold the constant 4, both mancalas 0 and the current player 1. A chosen
  initial-stones value \<open>S\<close> is installed only by \<^verbatim>\<open>restartGame\<close>, which builds the
  six-pit board and leaves two rows of length 6 whose cells all hold \<open>S\<close>, both mancalas
  0 and the current player 1.
\<close>

theorem constructor_fills_four:
  "(0 \<le> P \<and> P < 4294967296 \<longrightarrow>
      GameState_new d P =
        Inr \<lparr>dimensions = d, pocketsPerSide = P, currentPlayer = 1,
             player1Board = replicate (nat P) 4, player2Board = replicate (nat P) 4,
             mancalas = \<lparr>player1 = 0, player2 = 0\<rparr>\<rparr>) \<and>
   restartGame S =
     Inr \<lparr>dimensions = 2, pocketsPerSide = 6, currentPlayer = 1,
          player1Board = replicate 6 S, player2Board = replicate 6 S,
          mancalas = \<lparr>player1 = 0, player2 = 0\<rparr>\<rparr>"
  using restartGame_eq [of S] by (simp add: GameState_new_eq)

text \<open>Six pits per side, and a restart with 3 stones per pit.\<close>

theorem constructor_fills_four_witness:
  "GameState_new 2 6 = Inr start6 \<and>
   restartGame 3 = Inr (start6\<lparr>player1Board := [3, 3, 3, 3, 3, 3],
                               player2Board := [3, 3, 3, 3, 3, 3]\<rparr>)"
  using constructor_fills_four [of 6 2 3] by (simp add: start6_def eval_nat_numeral)

text \<open>
  The claim as written lets the caller of the constructor choose the stones per pit. With
  \<open>P = 6\<close> and \<open>S = 7\<close> the constructed rows hold 4 in every cell, not 7.
\<close>

theorem constructor_stones_counterexample:
  "GameState_new 2 6 = Inr start6 \<and>
   GameState_new 2 6 \<noteq>
     Inr \<lparr>dimensions = 2, pocketsPerSide = 6, currentPlayer = 1,
          player1Board = replicate 6 7, player2Board = replicate 6 7,
          mancalas = \<lparr>player1 = 0, player2 = 0\<rparr>\<rparr>"
  by (simp add: GameState_new_eq start6_def eval_nat_numeral)


end
